theory Spec2Isabelle
  imports Main
begin

section \<open>JavaScript values of the promise engine\<close>

text \<open>
  The three state names of the source (\<^verbatim>\<open>PENDING\<close>, \<^verbatim>\<open>FULFILLED\<close>, \<^verbatim>\<open>REJECTED\<close>)
  are string constants; \<open>state_name\<close> gives the string each one holds.
\<close>

datatype pstate = PENDING | FULFILLED | REJECTED

fun state_name :: "pstate \<Rightarrow> string" where
  "state_name PENDING = ''pending''"
| "state_name FULFILLED = ''fulfilled''"
| "state_name REJECTED = ''rejected''"

text \<open>
  Function values are defunctionalised: one constructor per closure the source creates.
  \<^item> \<open>Resolve p\<close>, \<open>Reject p\<close>: \<^verbatim>\<open>this._resolve.bind(this)\<close> and \<^verbatim>\<open>this._reject.bind(this)\<close>
    of the promise at address \<open>p\<close> (the two capabilities the constructor hands out);
  \<^item> \<open>AllThen a c i\<close>: the arrow function \<^verbatim>\<open>data => {...}\<close> of \<^verbatim>\<open>MyPromise.all\<close>, closed over
    the capability of the promise \<open>a\<close>, the variables of the call (cell \<open>c\<close>) and the index \<open>i\<close>;
  \<^item> \<open>SettledValue\<close>, \<open>SettledReason\<close>: the two arrow functions of \<^verbatim>\<open>MyPromise.allSettled\<close>;
  \<^item> \<open>User k\<close>: a function of the caller, the \<open>k\<close>-th entry of an environment. Such a
    function is given its argument and the world; it returns a value or throws one, and
    leaves a world (it may create and settle promises).
\<close>

datatype func =
    Resolve nat
  | Reject nat
  | AllThen nat nat nat
  | SettledValue
  | SettledReason
  | User nat

text \<open>
  A \<open>Thenable\<close> is a foreign object with a callable \<^verbatim>\<open>then\<close>: the script lists what that
  method does, in order, with the two callbacks \<^verbatim>\<open>(a, b)\<close> it is given: it calls \<^verbatim>\<open>a(v)\<close> or
  \<^verbatim>\<open>b(v)\<close> at once, hands \<^verbatim>\<open>() => a(v)\<close> or \<^verbatim>\<open>() => b(v)\<close> to \<^verbatim>\<open>setTimeout\<close>, or throws.
  A \<open>FunctionWithThen f script\<close> is a function object that carries such a \<^verbatim>\<open>then\<close> member:
  called, it behaves as \<open>f\<close>.
\<close>

datatype val =
    Undefined
  | Null
  | Bool bool
  | Num int
  | Str string
  | Obj "(string \<times> val) list"
  | ArrRef nat
  | PromiseRef nat
  | Thenable "tcall list"
  | ReferenceError string
  | TypeError string
  | Fn func
  | FunctionWithThen func "tcall list"
and tcall =
    CallOnFulfilled val
  | CallOnRejected val
  | LaterOnFulfilled val
  | LaterOnRejected val
  | ThrowInThen val

fun truthy :: "val \<Rightarrow> bool" where
  "truthy Undefined = False"
| "truthy Null = False"
| "truthy (Bool b) = b"
| "truthy (Num n) = (n \<noteq> 0)"
| "truthy (Str s) = (s \<noteq> [])"
| "truthy _ = True"

fun typeof :: "val \<Rightarrow> string" where
  "typeof Undefined = ''undefined''"
| "typeof (Bool b) = ''boolean''"
| "typeof (Num n) = ''number''"
| "typeof (Str s) = ''string''"
| "typeof (Fn f) = ''function''"
| "typeof (FunctionWithThen f script) = ''function''"
| "typeof _ = ''object''"

text \<open>\<^verbatim>\<open>typeof x === 'function'\<close>.\<close>

fun is_function :: "val \<Rightarrow> bool" where
  "is_function (Fn f) = True"
| "is_function (FunctionWithThen f script) = True"
| "is_function _ = False"

text \<open>\<^verbatim>\<open>typeof obj.then === 'function'\<close>.\<close>

fun then_is_function :: "val \<Rightarrow> bool" where
  "then_is_function (PromiseRef q) = True"
| "then_is_function (Thenable script) = True"
| "then_is_function (FunctionWithThen f script) = True"
| "then_is_function (Obj kvs) = (case map_of kvs ''then'' of Some v \<Rightarrow> is_function v | None \<Rightarrow> False)"
| "then_is_function _ = False"

definition isPromise :: "val \<Rightarrow> bool" where
  "isPromise obj = (truthy obj \<and> typeof obj = ''object'' \<and> then_is_function obj)"

section \<open>The store\<close>

record handler =
  executor :: val
  state :: pstate
  resolve :: func
  reject :: func

record promise =
  p_state :: pstate
  p_value :: val
  p_handlers :: "handler list"

text \<open>
  What the host is handed to run later. \<open>Task p hdl\<close> is the callback \<^verbatim>\<open>_runOneHandler\<close> passes
  to the adapter: it closes over \<^verbatim>\<open>this\<close> and the handler. \<open>Call f v\<close> is the callback
  \<^verbatim>\<open>() => f(v)\<close> of a foreign thenable.
\<close>

datatype task = Task nat handler | Call func val

text \<open>The variables one call of \<^verbatim>\<open>MyPromise.all\<close> shares with its callbacks; \<open>None\<close> is a hole of the array.\<close>

record allctx =
  results :: "val option list"
  count :: nat
  fulfilledCount :: nat

datatype facility = NextTick | SetTimeout

record world =
  promises :: "nat \<Rightarrow> promise"
  nextId :: nat
  ctxs :: "nat \<Rightarrow> allctx"
  nextCtx :: nat
  deferred :: "(facility \<times> task) list"

text \<open>
  The host: whether the global \<^verbatim>\<open>process\<close> is declared, and then whether it is an object
  with a truthy \<^verbatim>\<open>nextTick\<close>; whether the global \<^verbatim>\<open>MutationObserver\<close> is declared and truthy.
  Reading an undeclared global throws a ReferenceError.
\<close>

datatype process_binding = ProcessUndeclared | ProcessFalsy | ProcessObject bool
datatype observer_binding = ObserverUndeclared | ObserverFalsy | ObserverTruthy

record host =
  process :: process_binding
  MutationObserver :: observer_binding

section \<open>The scheduling adapter\<close>

definition runMicroTask :: "host \<Rightarrow> task \<Rightarrow> world \<Rightarrow> val option \<times> world" where
  "runMicroTask h callback w =
     (case process h of
        ProcessUndeclared \<Rightarrow> (Some (ReferenceError ''process is not defined''), w)
      | ProcessObject True \<Rightarrow> (None, w\<lparr>deferred := deferred w @ [(NextTick, callback)]\<rparr>)
      | _ \<Rightarrow>
         (case MutationObserver h of
            ObserverUndeclared \<Rightarrow> (Some (ReferenceError ''MutationObserver is not defined''), w)
          | ObserverTruthy \<Rightarrow> (None, w)
          | ObserverFalsy \<Rightarrow> (None, w\<lparr>deferred := deferred w @ [(SetTimeout, callback)]\<rparr>)))"

section \<open>The promise state machine\<close>

definition set_promise :: "nat \<Rightarrow> promise \<Rightarrow> world \<Rightarrow> world" where
  "set_promise p x w = w\<lparr>promises := (promises w)(p := x)\<rparr>"

definition pushHandler :: "nat \<Rightarrow> val \<Rightarrow> pstate \<Rightarrow> func \<Rightarrow> func \<Rightarrow> world \<Rightarrow> world" where
  "pushHandler p ex st res rej w =
     set_promise p ((promises w p)\<lparr>p_handlers := p_handlers (promises w p) @
        [\<lparr>executor = ex, state = st, resolve = res, reject = rej\<rparr>]\<rparr>) w"

definition runOneHandler :: "host \<Rightarrow> nat \<Rightarrow> handler \<Rightarrow> world \<Rightarrow> val option \<times> world" where
  "runOneHandler h p hdl w = runMicroTask h (Task p hdl) w"

text \<open>
  The loop of \<^verbatim>\<open>_runHandlers\<close>: a handler is an object, so \<^verbatim>\<open>this._handlers[0]\<close> is truthy
  exactly when the queue is not empty. An exception of the adapter leaves the loop before
  the \<^verbatim>\<open>shift\<close>.
\<close>

function runHandlers_loop :: "host \<Rightarrow> nat \<Rightarrow> world \<Rightarrow> val option \<times> world" where
  "runHandlers_loop h p w =
     (case p_handlers (promises w p) of
        [] \<Rightarrow> (None, w)
      | hdl # rest \<Rightarrow>
         (case runOneHandler h p hdl w of
            (Some e, w1) \<Rightarrow> (Some e, w1)
          | (None, w1) \<Rightarrow>
              runHandlers_loop h p
                (set_promise p ((promises w1 p)\<lparr>p_handlers := tl (p_handlers (promises w1 p))\<rparr>) w1)))"
  by pat_completeness auto
termination
  by (relation "measure (\<lambda>(h, p, w). length (p_handlers (promises w p)))")
     (auto simp: runOneHandler_def runMicroTask_def set_promise_def
           split: process_binding.splits observer_binding.splits bool.splits if_splits)

definition runHandlers :: "host \<Rightarrow> nat \<Rightarrow> world \<Rightarrow> val option \<times> world" where
  "runHandlers h p w =
     (if p_state (promises w p) = PENDING then (None, w) else runHandlers_loop h p w)"

definition changeState :: "host \<Rightarrow> nat \<Rightarrow> pstate \<Rightarrow> val \<Rightarrow> world \<Rightarrow> val option \<times> world" where
  "changeState h p newState v w =
     (if p_state (promises w p) \<noteq> PENDING then (None, w)
      else runHandlers h p
             (set_promise p ((promises w p)\<lparr>p_state := newState, p_value := v\<rparr>) w))"

definition p_resolve :: "host \<Rightarrow> nat \<Rightarrow> val \<Rightarrow> world \<Rightarrow> val option \<times> world" where
  "p_resolve h p data w = changeState h p FULFILLED data w"

definition p_reject :: "host \<Rightarrow> nat \<Rightarrow> val \<Rightarrow> world \<Rightarrow> val option \<times> world" where
  "p_reject h p reason w = changeState h p REJECTED reason w"

text \<open>
  \<^verbatim>\<open>new MyPromise(executor)\<close>: \<open>init_promise\<close> is the three assignments at the head of the
  constructor, at a fresh address. The executor is given the address of the new promise,
  whose capabilities are \<open>Resolve p\<close> and \<open>Reject p\<close>; \<open>Some e\<close> is the executor throwing \<open>e\<close>.
\<close>

definition init_promise :: "world \<Rightarrow> world" where
  "init_promise w =
     set_promise (nextId w) \<lparr>p_state = PENDING, p_value = Undefined, p_handlers = []\<rparr>
       (w\<lparr>nextId := Suc (nextId w)\<rparr>)"

definition new_MyPromise ::
  "host \<Rightarrow> (nat \<Rightarrow> world \<Rightarrow> val option \<times> world) \<Rightarrow> world \<Rightarrow> (val + nat) \<times> world" where
  "new_MyPromise h exec w =
     (let p = nextId w
      in case exec p (init_promise w) of
           (None, w1) \<Rightarrow> (Inr p, w1)
         | (Some error, w1) \<Rightarrow>
             (case p_reject h p error w1 of
                (None, w2) \<Rightarrow> (Inr p, w2)
              | (Some e, w2) \<Rightarrow> (Inl e, w2)))"

definition MyPromise_then :: "host \<Rightarrow> nat \<Rightarrow> val \<Rightarrow> val \<Rightarrow> world \<Rightarrow> (val + nat) \<times> world" where
  "MyPromise_then h p onFulfilled onRejected w =
     new_MyPromise h
       (\<lambda>d w0. runHandlers h p
           (pushHandler p onRejected REJECTED (Resolve d) (Reject d)
             (pushHandler p onFulfilled FULFILLED (Resolve d) (Reject d) w0))) w"

text \<open>The handler \<^verbatim>\<open>then\<close> pushes for a continuation \<open>x\<close>, a watched state and the new promise \<open>d\<close>.\<close>

abbreviation then_handler :: "val \<Rightarrow> pstate \<Rightarrow> nat \<Rightarrow> handler" where
  "then_handler x st d \<equiv> \<lparr>executor = x, state = st, resolve = Resolve d, reject = Reject d\<rparr>"

section \<open>Calling function values\<close>

type_synonym env = "nat \<Rightarrow> val \<Rightarrow> world \<Rightarrow> (val + val) \<times> world"
  \<comment> \<open>a user function applied to its argument in a world: \<open>Inl\<close> the thrown value, \<open>Inr\<close> the
     returned one, and the world it leaves\<close>

text \<open>\<^verbatim>\<open>results[i] = data\<close> on a JavaScript array: writing past the end leaves holes.\<close>

definition array_set :: "val option list \<Rightarrow> nat \<Rightarrow> val \<Rightarrow> val option list" where
  "array_set xs i v =
     (if i < length xs then xs[i := Some v]
      else xs @ replicate (i - length xs) None @ [Some v])"

definition completion :: "val option \<times> world \<Rightarrow> (val + val) \<times> world" where
  "completion r = (case r of (None, w) \<Rightarrow> (Inr Undefined, w) | (Some e, w) \<Rightarrow> (Inl e, w))"

definition discard :: "('a + 'b) \<times> world \<Rightarrow> 'a option \<times> world" where
  "discard r = (case r of (Inr x, w) \<Rightarrow> (None, w) | (Inl e, w) \<Rightarrow> (Some e, w))"

text \<open>
  The body of the callback \<^verbatim>\<open>data => {...}\<close> of \<^verbatim>\<open>MyPromise.all\<close>; \<^verbatim>\<open>count\<close> is read when the
  callback runs.
\<close>

definition all_onFulfilled :: "host \<Rightarrow> nat \<Rightarrow> nat \<Rightarrow> nat \<Rightarrow> val \<Rightarrow> world \<Rightarrow> val option \<times> world" where
  "all_onFulfilled h a c i data w =
     (let cx = ctxs w c;
          cx1 = cx\<lparr>fulfilledCount := Suc (fulfilledCount cx)\<rparr>;
          cx2 = cx1\<lparr>results := array_set (results cx1) i data\<rparr>;
          w1 = w\<lparr>ctxs := (ctxs w)(c := cx2)\<rparr>
      in if fulfilledCount cx2 = count cx2 then p_resolve h a (ArrRef c) w1 else (None, w1))"

definition apply_fn :: "host \<Rightarrow> env \<Rightarrow> func \<Rightarrow> val \<Rightarrow> world \<Rightarrow> (val + val) \<times> world" where
  "apply_fn h env f x w =
     (case f of
        Resolve p \<Rightarrow> completion (p_resolve h p x w)
      | Reject p \<Rightarrow> completion (p_reject h p x w)
      | AllThen a c i \<Rightarrow> completion (all_onFulfilled h a c i x w)
      | SettledValue \<Rightarrow> (Inr (Obj [(''status'', Str (state_name FULFILLED)), (''value'', x)]), w)
      | SettledReason \<Rightarrow> (Inr (Obj [(''status'', Str (state_name FULFILLED)), (''reason'', x)]), w)
      | User k \<Rightarrow> env k x w)"

text \<open>What the \<^verbatim>\<open>then\<close> of a foreign thenable does with the callbacks it is given.\<close>

fun run_script :: "host \<Rightarrow> env \<Rightarrow> tcall list \<Rightarrow> func \<Rightarrow> func \<Rightarrow> world \<Rightarrow> (val + val) \<times> world" where
  "run_script h env [] a b w = (Inr Undefined, w)"
| "run_script h env (CallOnFulfilled v # rest) a b w =
     (case apply_fn h env a v w of
        (Inl e, w1) \<Rightarrow> (Inl e, w1)
      | (Inr r, w1) \<Rightarrow> run_script h env rest a b w1)"
| "run_script h env (CallOnRejected v # rest) a b w =
     (case apply_fn h env b v w of
        (Inl e, w1) \<Rightarrow> (Inl e, w1)
      | (Inr r, w1) \<Rightarrow> run_script h env rest a b w1)"
| "run_script h env (LaterOnFulfilled v # rest) a b w =
     run_script h env rest a b (w\<lparr>deferred := deferred w @ [(SetTimeout, Call a v)]\<rparr>)"
| "run_script h env (LaterOnRejected v # rest) a b w =
     run_script h env rest a b (w\<lparr>deferred := deferred w @ [(SetTimeout, Call b v)]\<rparr>)"
| "run_script h env (ThrowInThen e # rest) a b w = (Inl e, w)"

text \<open>Calling a value: a TypeError when it is not a function.\<close>

definition call_value :: "host \<Rightarrow> env \<Rightarrow> val \<Rightarrow> val \<Rightarrow> world \<Rightarrow> (val + val) \<times> world" where
  "call_value h env f x w =
     (case f of
        Fn g \<Rightarrow> apply_fn h env g x w
      | FunctionWithThen g script \<Rightarrow> apply_fn h env g x w
      | _ \<Rightarrow> (Inl (TypeError ''not a function''), w))"

text \<open>
  \<^verbatim>\<open>x.then(a, b)\<close>. The functions of this model take one argument, so a plain object
  whose \<^verbatim>\<open>then\<close> is one of them sees \<open>a\<close> only.
\<close>

definition call_then :: "host \<Rightarrow> env \<Rightarrow> val \<Rightarrow> func \<Rightarrow> func \<Rightarrow> world \<Rightarrow> (val + val) \<times> world" where
  "call_then h env x a b w =
     (case x of
        PromiseRef q \<Rightarrow>
          (case MyPromise_then h q (Fn a) (Fn b) w of
             (Inl e, w1) \<Rightarrow> (Inl e, w1)
           | (Inr d, w1) \<Rightarrow> (Inr (PromiseRef d), w1))
      | Thenable script \<Rightarrow> run_script h env script a b w
      | FunctionWithThen g script \<Rightarrow> run_script h env script a b w
      | Obj kvs \<Rightarrow>
          (case map_of kvs ''then'' of
             Some v \<Rightarrow> call_value h env v (Fn a) w
           | None \<Rightarrow> (Inl (TypeError ''not a function''), w))
      | _ \<Rightarrow> (Inl (TypeError ''not a function''), w))"

section \<open>The callback of one handler\<close>

text \<open>
  The arrow function \<^verbatim>\<open>_runOneHandler\<close> hands to \<^verbatim>\<open>runMicroTask\<close>, run by the host later;
  an exception of the callback of a thenable goes to the host.
\<close>

definition run_task :: "host \<Rightarrow> env \<Rightarrow> task \<Rightarrow> world \<Rightarrow> val option \<times> world" where
  "run_task h env t w =
     (case t of Task p hdl \<Rightarrow>
        if p_state (promises w p) \<noteq> state hdl then (None, w)
        else if \<not> is_function (executor hdl) then
          (if p_state (promises w p) = FULFILLED
           then discard (apply_fn h env (resolve hdl) (p_value (promises w p)) w)
           else discard (apply_fn h env (reject hdl) (p_value (promises w p)) w))
        else
          (case (case call_value h env (executor hdl) (p_value (promises w p)) w of
                   (Inl e, w1) \<Rightarrow> (Some e, w1)
                 | (Inr result, w1) \<Rightarrow>
                     if isPromise result
                     then discard (call_then h env result (resolve hdl) (reject hdl) w1)
                     else discard (apply_fn h env (resolve hdl) result w1)) of
             (None, w2) \<Rightarrow> (None, w2)
           | (Some error, w2) \<Rightarrow> discard (apply_fn h env (reject hdl) error w2))
      | Call f v \<Rightarrow> discard (apply_fn h env f v w))"

section \<open>The host's loop\<close>

text \<open>
  The host runs the callbacks it was handed, one at a time: those given to
  \<^verbatim>\<open>process.nextTick\<close> first, in the order they came, then those given to \<^verbatim>\<open>setTimeout\<close>.
\<close>

fun take_first :: "facility \<Rightarrow> (facility \<times> task) list \<Rightarrow> (task \<times> (facility \<times> task) list) option" where
  "take_first f [] = None"
| "take_first f ((g, t) # rest) =
     (if g = f then Some (t, rest)
      else (case take_first f rest of
              None \<Rightarrow> None
            | Some (t1, rest1) \<Rightarrow> Some (t1, (g, t) # rest1)))"

definition next_task :: "world \<Rightarrow> (task \<times> world) option" where
  "next_task w =
     (case take_first NextTick (deferred w) of
        Some (t, rest) \<Rightarrow> Some (t, w\<lparr>deferred := rest\<rparr>)
      | None \<Rightarrow>
         (case take_first SetTimeout (deferred w) of
            Some (t, rest) \<Rightarrow> Some (t, w\<lparr>deferred := rest\<rparr>)
          | None \<Rightarrow> None))"

text \<open>
  \<open>run_loop n\<close> runs callbacks until none is left, \<open>n\<close> at most: \<open>None\<close> when \<open>n\<close> did not
  suffice, \<open>Some (Some e, w)\<close> when a callback threw \<open>e\<close> to the host.
\<close>

fun run_loop :: "nat \<Rightarrow> host \<Rightarrow> env \<Rightarrow> world \<Rightarrow> (val option \<times> world) option" where
  "run_loop 0 h env w = (case next_task w of None \<Rightarrow> Some (None, w) | Some x \<Rightarrow> None)"
| "run_loop (Suc n) h env w =
     (case next_task w of
        None \<Rightarrow> Some (None, w)
      | Some (t, w1) \<Rightarrow>
         (case run_task h env t w1 of
            (Some e, w2) \<Rightarrow> Some (Some e, w2)
          | (None, w2) \<Rightarrow> run_loop n h env w2))"

section \<open>The static combinators\<close>

definition MyPromise_resolve :: "host \<Rightarrow> env \<Rightarrow> val \<Rightarrow> world \<Rightarrow> (val + nat) \<times> world" where
  "MyPromise_resolve h env data w =
     (case data of
        PromiseRef q \<Rightarrow> (Inr q, w)
      | _ \<Rightarrow>
         new_MyPromise h
           (\<lambda>p w0. if isPromise data
                    then discard (call_then h env data (Resolve p) (Reject p) w0)
                    else p_resolve h p data w0) w)"

definition MyPromise_reject :: "host \<Rightarrow> val \<Rightarrow> world \<Rightarrow> (val + nat) \<times> world" where
  "MyPromise_reject h reason w = new_MyPromise h (\<lambda>p w0. p_reject h p reason w0) w"

text \<open>The \<^verbatim>\<open>for\<close> loop of \<^verbatim>\<open>MyPromise.all\<close>, for the promise \<open>a\<close> under construction.\<close>

fun all_loop :: "host \<Rightarrow> env \<Rightarrow> nat \<Rightarrow> nat \<Rightarrow> val list \<Rightarrow> world \<Rightarrow> val option \<times> world" where
  "all_loop h env a c [] w = (None, w)"
| "all_loop h env a c (promise # rest) w =
     (let i = count (ctxs w c);
          w1 = w\<lparr>ctxs := (ctxs w)(c := (ctxs w c)\<lparr>count := Suc (count (ctxs w c))\<rparr>)\<rparr>
      in case MyPromise_resolve h env promise w1 of
           (Inl e, w2) \<Rightarrow> (Some e, w2)
         | (Inr q, w2) \<Rightarrow>
             (case MyPromise_then h q (Fn (AllThen a c i)) (Fn (Reject a)) w2 of
                (Inl e, w3) \<Rightarrow> (Some e, w3)
              | (Inr d, w3) \<Rightarrow> all_loop h env a c rest w3))"

definition MyPromise_all :: "host \<Rightarrow> env \<Rightarrow> val list \<Rightarrow> world \<Rightarrow> (val + nat) \<times> world" where
  "MyPromise_all h env proms w =
     new_MyPromise h
       (\<lambda>a w0.
          let c = nextCtx w0;
              w1 = w0\<lparr>nextCtx := Suc c,
                      ctxs := (ctxs w0)(c := \<lparr>results = [], count = 0, fulfilledCount = 0\<rparr>)\<rparr>
          in case (case all_loop h env a c proms w1 of
                     (Some e, w2) \<Rightarrow> (Some e, w2)
                   | (None, w2) \<Rightarrow>
                       if count (ctxs w2 c) = 0 then p_resolve h a (ArrRef c) w2 else (None, w2)) of
               (None, w3) \<Rightarrow> (None, w3)
             | (Some error, w3) \<Rightarrow> p_reject h a error w3) w"

fun allSettled_loop :: "host \<Rightarrow> env \<Rightarrow> val list \<Rightarrow> val list \<Rightarrow> world \<Rightarrow> (val + val list) \<times> world" where
  "allSettled_loop h env ps [] w = (Inr ps, w)"
| "allSettled_loop h env ps (p # rest) w =
     (case MyPromise_resolve h env p w of
        (Inl e, w1) \<Rightarrow> (Inl e, w1)
      | (Inr q, w1) \<Rightarrow>
          (case MyPromise_then h q (Fn SettledValue) (Fn SettledReason) w1 of
             (Inl e, w2) \<Rightarrow> (Inl e, w2)
           | (Inr d, w2) \<Rightarrow> allSettled_loop h env (ps @ [PromiseRef d]) rest w2))"

definition MyPromise_allSettled :: "host \<Rightarrow> env \<Rightarrow> val list \<Rightarrow> world \<Rightarrow> (val + nat) \<times> world" where
  "MyPromise_allSettled h env proms w =
     (case allSettled_loop h env [] proms w of
        (Inl e, w1) \<Rightarrow> (Inl e, w1)
      | (Inr ps, w1) \<Rightarrow> MyPromise_all h env ps w1)"

text \<open>
  \<^verbatim>\<open>MyPromise(executor)\<close>, the class called as a function: a class constructor cannot be
  invoked without \<^verbatim>\<open>new\<close>, so the call throws a TypeError before anything of the class runs.
\<close>

definition call_MyPromise ::
  "host \<Rightarrow> (nat \<Rightarrow> world \<Rightarrow> val option \<times> world) \<Rightarrow> world \<Rightarrow> (val + nat) \<times> world" where
  "call_MyPromise h exec w =
     (Inl (TypeError ''Class constructor MyPromise cannot be invoked without new''), w)"

fun race_loop :: "host \<Rightarrow> env \<Rightarrow> nat \<Rightarrow> val list \<Rightarrow> world \<Rightarrow> val option \<times> world" where
  "race_loop h env r [] w = (None, w)"
| "race_loop h env r (p # rest) w =
     (case MyPromise_resolve h env p w of
        (Inl e, w1) \<Rightarrow> (Some e, w1)
      | (Inr q, w1) \<Rightarrow>
          (case MyPromise_then h q (Fn (Resolve r)) (Fn (Reject r)) w1 of
             (Inl e, w2) \<Rightarrow> (Some e, w2)
           | (Inr d, w2) \<Rightarrow> race_loop h env r rest w2))"

definition MyPromise_race :: "host \<Rightarrow> env \<Rightarrow> val list \<Rightarrow> world \<Rightarrow> (val + nat) \<times> world" where
  "MyPromise_race h env proms w = call_MyPromise h (\<lambda>r w0. race_loop h env r proms w0) w"

section \<open>Settling the inputs of a combinator\<close>

text \<open>
  What happens after a combinator has returned: the inputs are settled from outside, one
  after the other. An event \<open>(i, s, v)\<close> settles the \<open>i\<close>-th input with state \<open>s\<close> and value
  \<open>v\<close> (\<^verbatim>\<open>_changeState\<close>, which both capabilities call), and then the host runs the callbacks
  it was handed. \<open>None\<close> when a call threw or the host did not finish.
\<close>

fun settle_inputs :: "host \<Rightarrow> env \<Rightarrow> nat list \<Rightarrow> (nat \<times> pstate \<times> val) list \<Rightarrow> world \<Rightarrow> world option" where
  "settle_inputs h env qs [] w = Some w"
| "settle_inputs h env qs ((i, s, v) # evs) w =
     (case changeState h (qs ! i) s v w of
        (Some e, w1) \<Rightarrow> None
      | (None, w1) \<Rightarrow>
         (case run_loop (Suc (Suc 0)) h env w1 of
            Some (None, w2) \<Rightarrow> settle_inputs h env qs evs w2
          | _ \<Rightarrow> None))"

text \<open>
  Reading a list of events: the reason of the first rejection, the value an index was
  fulfilled with, and the number of fulfilments.
\<close>

fun first_reason :: "(nat \<times> pstate \<times> val) list \<Rightarrow> val option" where
  "first_reason [] = None"
| "first_reason ((i, s, v) # evs) = (if s = REJECTED then Some v else first_reason evs)"

fun fulfilled_values :: "(nat \<times> pstate \<times> val) list \<Rightarrow> nat \<Rightarrow> val option" where
  "fulfilled_values [] j = None"
| "fulfilled_values ((i, s, v) # evs) j =
     (if s = FULFILLED \<and> i = j then Some v else fulfilled_values evs j)"

fun fulfilments :: "(nat \<times> pstate \<times> val) list \<Rightarrow> nat" where
  "fulfilments [] = 0"
| "fulfilments ((i, s, v) # evs) = (if s = FULFILLED then Suc (fulfilments evs) else fulfilments evs)"

text \<open>
  The invariant of one call of \<^verbatim>\<open>MyPromise.all\<close> on the promises \<open>qs\<close>, between events: \<open>a\<close> is
  the promise the call returned, \<open>c\<close> the cell of its variables, \<open>m\<close> the values of the inputs
  fulfilled so far, \<open>k\<close> their number, \<open>rj\<close> the reason of the first rejection and \<open>D\<close> the
  indices of the inputs settled so far.
\<close>

definition all_inv ::
  "nat \<Rightarrow> nat \<Rightarrow> nat list \<Rightarrow> (nat \<Rightarrow> val option) \<Rightarrow> nat \<Rightarrow> val option \<Rightarrow> nat set \<Rightarrow> world \<Rightarrow> bool" where
  "all_inv a c qs m k rj D w \<longleftrightarrow>
     deferred w = [] \<and>
     count (ctxs w c) = length qs \<and> fulfilledCount (ctxs w c) = k \<and>
     length (results (ctxs w c)) \<le> length qs \<and>
     (\<forall>j<length (results (ctxs w c)). results (ctxs w c) ! j = m j) \<and>
     (\<forall>j. m j \<noteq> None \<longrightarrow> j < length (results (ctxs w c))) \<and>
     p_handlers (promises w a) = [] \<and>
     (case rj of
        Some r \<Rightarrow> p_state (promises w a) = REJECTED \<and> p_value (promises w a) = r
      | None \<Rightarrow>
          if k = length qs
          then p_state (promises w a) = FULFILLED \<and> p_value (promises w a) = ArrRef c
          else p_state (promises w a) = PENDING) \<and>
     D \<subseteq> {..<length qs} \<and> k \<le> card D \<and>
     (\<forall>i<length qs. i \<notin> D \<longrightarrow>
        p_state (promises w (qs ! i)) = PENDING \<and>
        p_handlers (promises w (qs ! i)) =
          [then_handler (Fn (AllThen a c i)) FULFILLED (Suc a + i),
           then_handler (Fn (Reject a)) REJECTED (Suc a + i)] \<and>
        promises w (Suc a + i) = \<lparr>p_state = PENDING, p_value = Undefined, p_handlers = []\<rparr>)"

section \<open>Hosts and worlds used in the examples\<close>

definition empty_world :: world where
  "empty_world =
     \<lparr>promises = (\<lambda>a. \<lparr>p_state = PENDING, p_value = Undefined, p_handlers = []\<rparr>),
      nextId = 0,
      ctxs = (\<lambda>a. \<lparr>results = [], count = 0, fulfilledCount = 0\<rparr>),
      nextCtx = 0,
      deferred = []\<rparr>"

definition node_host :: host where
  "node_host = \<lparr>process = ProcessObject True, MutationObserver = ObserverUndeclared\<rparr>"

text \<open>A host where \<^verbatim>\<open>process\<close> is an object without \<^verbatim>\<open>nextTick\<close> and \<^verbatim>\<open>MutationObserver\<close> exists.\<close>

definition observer_host :: host where
  "observer_host = \<lparr>process = ProcessObject False, MutationObserver = ObserverTruthy\<rparr>"

definition no_user :: env where
  "no_user = (\<lambda>k x w. (Inr Undefined, w))"

text \<open>The world after \<^verbatim>\<open>MyPromise.resolve(1)\<close>: the promise at address 0 is fulfilled with 1.\<close>

definition fulfilled_world :: world where
  "fulfilled_world = snd (MyPromise_resolve node_host no_user (Num 1) empty_world)"

text \<open>The world after \<^verbatim>\<open>MyPromise.reject('x')\<close>: the promise at address 0 is rejected with \<^verbatim>\<open>'x'\<close>.\<close>

definition rejected_world :: world where
  "rejected_world = snd (MyPromise_reject node_host (Str ''x'') empty_world)"

text \<open>
  Three executors: \<^verbatim>\<open>() => {}\<close>, \<^verbatim>\<open>() => { throw 'E' }\<close> and
  \<^verbatim>\<open>(resolve) => { resolve(1); throw 'E' }\<close>.
\<close>

definition never_settles :: "nat \<Rightarrow> world \<Rightarrow> val option \<times> world" where
  "never_settles p w = (None, w)"

definition throw_only :: "nat \<Rightarrow> world \<Rightarrow> val option \<times> world" where
  "throw_only p w = (Some (Str ''E''), w)"

definition resolve_then_throw :: "host \<Rightarrow> nat \<Rightarrow> world \<Rightarrow> val option \<times> world" where
  "resolve_then_throw h p w =
     (case p_resolve h p (Num 1) w of
        (Some e, w1) \<Rightarrow> (Some e, w1)
      | (None, w1) \<Rightarrow> (Some (Str ''E''), w1))"

text \<open>
  A pending promise at address 0; the same after \<^verbatim>\<open>then(f)\<close> was called on it; and the rejected
  promise of \<open>rejected_world\<close> after \<^verbatim>\<open>then(f)\<close> was called on it.
\<close>

definition pending_world :: world where
  "pending_world = snd (new_MyPromise node_host never_settles empty_world)"

definition registered_world :: world where
  "registered_world = snd (MyPromise_then node_host 0 (Fn (User 0)) Undefined pending_world)"

definition chained_world :: world where
  "chained_world = snd (MyPromise_then node_host 0 (Fn (User 0)) Undefined rejected_world)"

text \<open>
  An environment of user functions. Function 0 returns the promise at address 1; function 1
  returns a foreign thenable whose \<^verbatim>\<open>then\<close> calls its first callback with 9; function 2
  returns one whose \<^verbatim>\<open>then\<close> hands \<^verbatim>\<open>() => b('late')\<close> to \<^verbatim>\<open>setTimeout\<close>; function 3 returns
  the object \<^verbatim>\<open>{then: f4}\<close>, where function 4 is \<^verbatim>\<open>a => a(7)\<close>; function 5 returns a function that
  carries a \<^verbatim>\<open>then\<close> member; function 6 returns \<^verbatim>\<open>MyPromise.reject('no')\<close>, created when it runs;
  the others return \<^verbatim>\<open>undefined\<close>.
\<close>

definition adopting_env :: "host \<Rightarrow> env" where
  "adopting_env h k x w =
     (if k = 0 then (Inr (PromiseRef 1), w)
      else if k = 1 then (Inr (Thenable [CallOnFulfilled (Num 9)]), w)
      else if k = 2 then (Inr (Thenable [LaterOnRejected (Str ''late'')]), w)
      else if k = 3 then (Inr (Obj [(''then'', Fn (User 4))]), w)
      else if k = 4 then
        (case x of
           Fn g \<Rightarrow> apply_fn h no_user g (Num 7) w
         | _ \<Rightarrow> (Inl (TypeError ''not a function''), w))
      else if k = 5 then (Inr (FunctionWithThen (User 7) [CallOnFulfilled (Num 9)]), w)
      else if k = 6 then
        (case MyPromise_reject h (Str ''no'') w of
           (Inl e, w1) \<Rightarrow> (Inl e, w1)
         | (Inr q, w1) \<Rightarrow> (Inr (PromiseRef q), w1))
      else (Inr Undefined, w))"

text \<open>
  Two worlds with a fulfilled promise at address 0: in the first the promise at address 1
  is rejected with \<^verbatim>\<open>'x'\<close>, in the second it is pending.
\<close>

definition two_settled_world :: world where
  "two_settled_world = snd (MyPromise_reject node_host (Str ''x'') fulfilled_world)"

definition settled_and_pending_world :: world where
  "settled_and_pending_world = snd (new_MyPromise node_host never_settles fulfilled_world)"

text \<open>The same two worlds with one more promise, pending, at address 2.\<close>

definition three_settled_world :: world where
  "three_settled_world = snd (new_MyPromise node_host never_settles two_settled_world)"

definition three_world :: world where
  "three_world = snd (new_MyPromise node_host never_settles settled_and_pending_world)"

text \<open>Two pending promises, at addresses 0 and 1.\<close>

definition two_pending_world :: world where
  "two_pending_world = snd (new_MyPromise node_host never_settles pending_world)"

text \<open>
  Glue for running an example: \<open>and_then\<close> continues with the promise a call returned (and
  gives up when the call threw), \<open>observe\<close> reads the state and the value of a promise and,
  when the value is the array of an \<^verbatim>\<open>all\<close>, its elements.
\<close>

definition and_then :: "(val + 'a) \<times> world \<Rightarrow> ('a \<Rightarrow> world \<Rightarrow> 'b option) \<Rightarrow> 'b option" where
  "and_then r k = (case r of (Inl e, w) \<Rightarrow> None | (Inr x, w) \<Rightarrow> k x w)"

definition observe :: "nat \<Rightarrow> val option \<times> world \<Rightarrow> val option \<times> pstate \<times> val \<times> val option list" where
  "observe r x =
     (case x of (e, w) \<Rightarrow>
        (e, p_state (promises w r), p_value (promises w r),
         (case p_value (promises w r) of ArrRef c \<Rightarrow> results (ctxs w c) | _ \<Rightarrow> [])))"

text \<open>
  \<^verbatim>\<open>MyPromise.allSettled([MyPromise.resolve(1), MyPromise.reject('x')])\<close> on Node, followed
  by the callbacks the host was handed.
\<close>

definition allSettled_example :: "(val option \<times> pstate \<times> val \<times> val option list) option" where
  "allSettled_example =
     and_then (MyPromise_resolve node_host no_user (Num 1) empty_world) (\<lambda>a w1.
     and_then (MyPromise_reject node_host (Str ''x'') w1) (\<lambda>b w2.
     and_then (MyPromise_allSettled node_host no_user [PromiseRef a, PromiseRef b] w2) (\<lambda>r w3.
       map_option (observe r) (run_loop 8 node_host no_user w3))))"

text \<open>
  \<^verbatim>\<open>MyPromise.resolve(1).then(f)\<close>, where \<^verbatim>\<open>f\<close> is function \<open>k\<close> of \<open>adopting_env\<close>, followed by
  the callbacks the host was handed: the promise \<^verbatim>\<open>then\<close> returned.
\<close>

definition chain_example :: "host \<Rightarrow> nat \<Rightarrow> nat \<Rightarrow> (val option \<times> pstate \<times> val \<times> val option list) option" where
  "chain_example h k n =
     and_then (MyPromise_resolve h (adopting_env h) (Num 1) empty_world) (\<lambda>p w1.
     and_then (MyPromise_then h p (Fn (User k)) Undefined w1) (\<lambda>d w2.
       map_option (observe d) (run_loop n h (adopting_env h) w2)))"

text \<open>
  Two continuations that leave a mark: each calls the resolve capability of the promise at
  address 0, the first with \<^verbatim>\<open>'first'\<close> and the second with \<^verbatim>\<open>'second'\<close>, and returns \<^verbatim>\<open>'a'\<close> and
  \<^verbatim>\<open>'b'\<close>. The promise at address 0 keeps the mark of the one that ran first.
\<close>

definition marking_env :: "host \<Rightarrow> env" where
  "marking_env h k x w =
     (if k = 0 then
        (case p_resolve h 0 (Str ''first'') w of
           (Some e, w1) \<Rightarrow> (Inl e, w1)
         | (None, w1) \<Rightarrow> (Inr (Str ''a''), w1))
      else if k = 1 then
        (case p_resolve h 0 (Str ''second'') w of
           (Some e, w1) \<Rightarrow> (Inl e, w1)
         | (None, w1) \<Rightarrow> (Inr (Str ''b''), w1))
      else (Inr Undefined, w))"

text \<open>The number of callbacks the host holds, and the state and value of some promises.\<close>

definition snapshot :: "nat list \<Rightarrow> world \<Rightarrow> nat \<times> (pstate \<times> val) list" where
  "snapshot ps w = (length (deferred w), map (\<lambda>p. (p_state (promises w p), p_value (promises w p))) ps)"

text \<open>
  Two registrations before the settlement: \<^verbatim>\<open>l\<close> and \<^verbatim>\<open>f\<close> are pending promises,
  \<^verbatim>\<open>d1 = f.then(f0)\<close>, \<^verbatim>\<open>d2 = f.then(f1)\<close>, then \<^verbatim>\<open>f\<close> is resolved with 1. The result is the
  snapshot of \<^verbatim>\<open>l\<close>, \<^verbatim>\<open>d1\<close>, \<^verbatim>\<open>d2\<close> when the resolving call returns, and the one after the host
  has run the callbacks it holds. The second example registers after the settlement:
  \<^verbatim>\<open>f = MyPromise.resolve(1)\<close>, and the first snapshot is taken when the second \<^verbatim>\<open>then\<close> returns.
\<close>

definition early_registration_example ::
  "host \<Rightarrow> ((nat \<times> (pstate \<times> val) list) \<times> (val option \<times> nat \<times> (pstate \<times> val) list) option) option" where
  "early_registration_example h =
     and_then (new_MyPromise h never_settles empty_world) (\<lambda>l w1.
     and_then (new_MyPromise h never_settles w1) (\<lambda>f w2.
     and_then (MyPromise_then h f (Fn (User 0)) Undefined w2) (\<lambda>d1 w3.
     and_then (MyPromise_then h f (Fn (User 1)) Undefined w3) (\<lambda>d2 w4.
       case p_resolve h f (Num 1) w4 of
         (Some e, w5) \<Rightarrow> None
       | (None, w5) \<Rightarrow>
           Some (snapshot [l, d1, d2] w5,
                 map_option (\<lambda>(e, w6). (e, snapshot [l, d1, d2] w6))
                   (run_loop 4 h (marking_env h) w5))))))"

definition late_registration_example ::
  "host \<Rightarrow> ((nat \<times> (pstate \<times> val) list) \<times> (val option \<times> nat \<times> (pstate \<times> val) list) option) option" where
  "late_registration_example h =
     and_then (new_MyPromise h never_settles empty_world) (\<lambda>l w1.
     and_then (MyPromise_resolve h (marking_env h) (Num 1) w1) (\<lambda>f w2.
     and_then (MyPromise_then h f (Fn (User 0)) Undefined w2) (\<lambda>d1 w3.
     and_then (MyPromise_then h f (Fn (User 1)) Undefined w3) (\<lambda>d2 w4.
       Some (snapshot [l, d1, d2] w4,
             map_option (\<lambda>(e, w5). (e, snapshot [l, d1, d2] w5))
               (run_loop 4 h (marking_env h) w4))))))"

text \<open>
  \<^verbatim>\<open>MyPromise.all([1, MyPromise.resolve(2), t])\<close>, where \<^verbatim>\<open>t\<close> is a foreign thenable whose \<^verbatim>\<open>then\<close>
  calls its first callback with 3, followed by the callbacks the host was handed.
\<close>

definition all_example :: "host \<Rightarrow> (val option \<times> pstate \<times> val \<times> val option list) option" where
  "all_example h =
     and_then (MyPromise_resolve h no_user (Num 2) empty_world) (\<lambda>p w1.
     and_then (MyPromise_all h no_user [Num 1, PromiseRef p, Thenable [CallOnFulfilled (Num 3)]] w1) (\<lambda>r w2.
       map_option (observe r) (run_loop 6 h no_user w2)))"

text \<open>\<^verbatim>\<open>MyPromise.all([p1, p2])\<close> on two pending promises, which the events then settle.\<close>

definition all_of_two_example ::
  "host \<Rightarrow> (nat \<times> pstate \<times> val) list \<Rightarrow> (val option \<times> pstate \<times> val \<times> val option list) option" where
  "all_of_two_example h evs =
     and_then (new_MyPromise h never_settles empty_world) (\<lambda>p1 w1.
     and_then (new_MyPromise h never_settles w1) (\<lambda>p2 w2.
     and_then (MyPromise_all h no_user [PromiseRef p1, PromiseRef p2] w2) (\<lambda>r w3.
       map_option (\<lambda>w4. observe r (None, w4)) (settle_inputs h no_user [p1, p2] evs w3))))"

section \<open>Facts about the state machine\<close>

declare runHandlers_loop.simps [simp del]

lemma set_promise_sel [simp]:
  "promises (set_promise p x w) q = (if q = p then x else promises w q)"
  "deferred (set_promise p x w) = deferred w"
  "nextId (set_promise p x w) = nextId w"
  "ctxs (set_promise p x w) = ctxs w"
  "nextCtx (set_promise p x w) = nextCtx w"
  by (simp_all add: set_promise_def)

lemma init_promise_sel [simp]:
  "promises (init_promise w) q =
     (if q = nextId w then \<lparr>p_state = PENDING, p_value = Undefined, p_handlers = []\<rparr> else promises w q)"
  "deferred (init_promise w) = deferred w"
  "nextId (init_promise w) = Suc (nextId w)"
  "ctxs (init_promise w) = ctxs w"
  "nextCtx (init_promise w) = nextCtx w"
  by (simp_all add: init_promise_def)

lemma pushHandler_sel [simp]:
  "promises (pushHandler p ex st res rej w) q =
     (if q = p
      then (promises w p)\<lparr>p_handlers := p_handlers (promises w p) @
             [\<lparr>executor = ex, state = st, resolve = res, reject = rej\<rparr>]\<rparr>
      else promises w q)"
  "deferred (pushHandler p ex st res rej w) = deferred w"
  "nextId (pushHandler p ex st res rej w) = nextId w"
  "ctxs (pushHandler p ex st res rej w) = ctxs w"
  "nextCtx (pushHandler p ex st res rej w) = nextCtx w"
  by (simp_all add: pushHandler_def)

lemma runMicroTask_node:
  "process h = ProcessObject True \<Longrightarrow>
   runMicroTask h t w = (None, w\<lparr>deferred := deferred w @ [(NextTick, t)]\<rparr>)"
  by (simp add: runMicroTask_def)

lemma runMicroTask_frame:
  "runMicroTask h t w = (e, w') \<Longrightarrow>
   promises w' = promises w \<and> nextId w' = nextId w \<and> ctxs w' = ctxs w \<and> nextCtx w' = nextCtx w"
  by (auto simp: runMicroTask_def split: process_binding.splits observer_binding.splits bool.splits)

lemma runHandlers_loop_node:
  "process h = ProcessObject True \<Longrightarrow> p_handlers (promises w p) = hs \<Longrightarrow>
   runHandlers_loop h p w = (e, w') \<Longrightarrow>
     e = None \<and>
     promises w' q = (if q = p then (promises w p)\<lparr>p_handlers := []\<rparr> else promises w q) \<and>
     deferred w' = deferred w @ map (\<lambda>x. (NextTick, Task p x)) hs \<and>
     nextId w' = nextId w \<and> ctxs w' = ctxs w \<and> nextCtx w' = nextCtx w"
proof (induction hs arbitrary: w)
  case Nil
  then have "(promises w p)\<lparr>p_handlers := []\<rparr> = promises w p"
    by (cases "promises w p") simp
  moreover from Nil have "e = None \<and> w' = w"
    by (subst (asm) runHandlers_loop.simps) simp
  ultimately show ?case by simp
next
  case (Cons x xs)
  let ?w1 = "w\<lparr>deferred := deferred w @ [(NextTick, Task p x)]\<rparr>"
  let ?w2 = "set_promise p ((promises ?w1 p)\<lparr>p_handlers := tl (p_handlers (promises ?w1 p))\<rparr>) ?w1"
  have hs2: "p_handlers (promises ?w2 p) = xs" using Cons.prems(2) by simp
  have "runHandlers_loop h p ?w2 = (e, w')"
    using Cons.prems by (subst (asm) runHandlers_loop.simps) (simp add: runOneHandler_def runMicroTask_node)
  from Cons.IH [OF Cons.prems(1) hs2 this] show ?case
    by simp
qed

lemma runHandlers_loop_frame:
  "runHandlers_loop h p w = (e, w') \<Longrightarrow>
     p_state (promises w' q) = p_state (promises w q) \<and>
     p_value (promises w' q) = p_value (promises w q) \<and>
     (q \<noteq> p \<longrightarrow> promises w' q = promises w q) \<and>
     nextId w' = nextId w \<and> ctxs w' = ctxs w \<and> nextCtx w' = nextCtx w"
proof (induction "p_handlers (promises w p)" arbitrary: w)
  case Nil
  then have "p_handlers (promises w p) = []" by simp
  with Nil.prems have "w' = w"
    by (subst (asm) runHandlers_loop.simps) simp
  then show ?case by simp
next
  case (Cons x xs)
  obtain e1 w1 where r: "runOneHandler h p x w = (e1, w1)" by (cases "runOneHandler h p x w")
  then have fr: "promises w1 = promises w \<and> nextId w1 = nextId w \<and> ctxs w1 = ctxs w \<and> nextCtx w1 = nextCtx w"
    using runMicroTask_frame by (simp add: runOneHandler_def)
  show ?case
  proof (cases e1)
    case (Some a)
    with Cons.prems Cons.hyps(2) [symmetric] r have "w' = w1"
      by (subst (asm) runHandlers_loop.simps) simp
    with fr show ?thesis by simp
  next
    case None
    let ?w2 = "set_promise p ((promises w1 p)\<lparr>p_handlers := tl (p_handlers (promises w1 p))\<rparr>) w1"
    have hs2: "xs = p_handlers (promises ?w2 p)" using Cons.hyps(2) [symmetric] fr by simp
    from Cons.prems Cons.hyps(2) [symmetric] r None have "runHandlers_loop h p ?w2 = (e, w')"
      by (subst (asm) runHandlers_loop.simps) simp
    from Cons.hyps(1) [OF hs2 this] fr show ?thesis
      by simp
  qed
qed

lemma runHandlers_frame:
  "runHandlers h p w = (e, w') \<Longrightarrow>
     p_state (promises w' q) = p_state (promises w q) \<and>
     p_value (promises w' q) = p_value (promises w q) \<and>
     (q \<noteq> p \<longrightarrow> promises w' q = promises w q) \<and>
     nextId w' = nextId w \<and> ctxs w' = ctxs w \<and> nextCtx w' = nextCtx w"
  using runHandlers_loop_frame [of h p w e w' q]
  by (auto simp: runHandlers_def split: if_splits)

lemma runHandlers_node:
  "process h = ProcessObject True \<Longrightarrow> p_state (promises w p) \<noteq> PENDING \<Longrightarrow>
   runHandlers h p w = (e, w') \<Longrightarrow>
     e = None \<and>
     promises w' q = (if q = p then (promises w p)\<lparr>p_handlers := []\<rparr> else promises w q) \<and>
     deferred w' = deferred w @ map (\<lambda>x. (NextTick, Task p x)) (p_handlers (promises w p)) \<and>
     nextId w' = nextId w \<and> ctxs w' = ctxs w \<and> nextCtx w' = nextCtx w"
  using runHandlers_loop_node [of h w p "p_handlers (promises w p)" e w' q]
  by (simp add: runHandlers_def)

lemma changeState_settled:
  "p_state (promises w p) \<noteq> PENDING \<Longrightarrow> changeState h p s v w = (None, w)"
  by (simp add: changeState_def)

lemma changeState_frame:
  "changeState h p s v w = (e, w') \<Longrightarrow>
     (q \<noteq> p \<longrightarrow> promises w' q = promises w q) \<and>
     nextId w' = nextId w \<and> ctxs w' = ctxs w \<and> nextCtx w' = nextCtx w"
  using runHandlers_frame [of h p "set_promise p ((promises w p)\<lparr>p_state := s, p_value := v\<rparr>) w" e w' q]
  by (auto simp: changeState_def split: if_splits)

lemma changeState_pending:
  "p_state (promises w p) = PENDING \<Longrightarrow> changeState h p s v w = (e, w') \<Longrightarrow>
     p_state (promises w' p) = s \<and> p_value (promises w' p) = v"
  using runHandlers_frame [of h p "set_promise p ((promises w p)\<lparr>p_state := s, p_value := v\<rparr>) w" e w' p]
  by (simp add: changeState_def)

lemma changeState_node:
  "process h = ProcessObject True \<Longrightarrow> p_state (promises w p) = PENDING \<Longrightarrow> s \<noteq> PENDING \<Longrightarrow>
   changeState h p s v w = (e, w') \<Longrightarrow>
     e = None \<and>
     promises w' q = (if q = p then \<lparr>p_state = s, p_value = v, p_handlers = []\<rparr> else promises w q) \<and>
     deferred w' = deferred w @ map (\<lambda>x. (NextTick, Task p x)) (p_handlers (promises w p)) \<and>
     nextId w' = nextId w \<and> ctxs w' = ctxs w \<and> nextCtx w' = nextCtx w"
  using runHandlers_node [of h "set_promise p ((promises w p)\<lparr>p_state := s, p_value := v\<rparr>) w" p e w' q]
  by (cases "promises w p") (simp add: changeState_def)

lemma then_pending:
  assumes "p_state (promises w p) = PENDING" and "p \<noteq> nextId w"
    and "MyPromise_then h p onFulfilled onRejected w = (r, w')"
  shows "r = Inr (nextId w) \<and>
     promises w' q =
       (if q = nextId w then \<lparr>p_state = PENDING, p_value = Undefined, p_handlers = []\<rparr>
        else if q = p then (promises w p)\<lparr>p_handlers := p_handlers (promises w p) @
               [then_handler onFulfilled FULFILLED (nextId w), then_handler onRejected REJECTED (nextId w)]\<rparr>
        else promises w q) \<and>
     deferred w' = deferred w \<and> nextId w' = Suc (nextId w) \<and> ctxs w' = ctxs w \<and> nextCtx w' = nextCtx w"
  using assms by (auto simp: MyPromise_then_def new_MyPromise_def runHandlers_def Let_def)

lemma then_settled_node:
  assumes "process h = ProcessObject True" and "p_state (promises w p) \<noteq> PENDING" and "p \<noteq> nextId w"
    and "MyPromise_then h p onFulfilled onRejected w = (r, w')"
  shows "r = Inr (nextId w) \<and>
     promises w' q =
       (if q = nextId w then \<lparr>p_state = PENDING, p_value = Undefined, p_handlers = []\<rparr>
        else if q = p then (promises w p)\<lparr>p_handlers := []\<rparr>
        else promises w q) \<and>
     deferred w' = deferred w @ map (\<lambda>x. (NextTick, Task p x)) (p_handlers (promises w p) @
               [then_handler onFulfilled FULFILLED (nextId w), then_handler onRejected REJECTED (nextId w)]) \<and>
     nextId w' = Suc (nextId w) \<and> ctxs w' = ctxs w \<and> nextCtx w' = nextCtx w"
proof -
  let ?d = "nextId w"
  let ?w0 = "pushHandler p onRejected REJECTED (Resolve ?d) (Reject ?d)
             (pushHandler p onFulfilled FULFILLED (Resolve ?d) (Reject ?d) (init_promise w))"
  obtain e1 w1 where r: "runHandlers h p ?w0 = (e1, w1)" by (cases "runHandlers h p ?w0")
  have st: "p_state (promises ?w0 p) \<noteq> PENDING" using assms(2,3) by simp
  from runHandlers_node [OF assms(1) st r, of q] assms(2,3,4) r show ?thesis
    by (auto simp: MyPromise_then_def new_MyPromise_def Let_def)
qed

lemma next_task_head:
  "deferred w = (NextTick, t) # rest \<Longrightarrow> next_task w = Some (t, w\<lparr>deferred := rest\<rparr>)"
  by (simp add: next_task_def)

lemma next_task_empty:
  "deferred w = [] \<Longrightarrow> next_task w = None"
  by (simp add: next_task_def)

lemma run_task_mismatch:
  "p_state (promises w p) \<noteq> state hdl \<Longrightarrow> run_task h env (Task p hdl) w = (None, w)"
  by (simp add: run_task_def)

lemma run_task_not_function:
  "\<not> is_function (executor hdl) \<Longrightarrow> p_state (promises w p) = state hdl \<Longrightarrow>
   run_task h env (Task p hdl) w =
     discard (apply_fn h env (if state hdl = FULFILLED then resolve hdl else reject hdl)
                (p_value (promises w p)) w)"
  by (simp add: run_task_def)

lemma capability_effect:
  assumes "p_state (promises w d) = PENDING"
    and "apply_fn h env (if st = FULFILLED then Resolve d else Reject d) v w = (r, w')"
    and "st \<noteq> PENDING"
  shows "p_state (promises w' d) = st \<and> p_value (promises w' d) = v \<and>
         (q \<noteq> d \<longrightarrow> promises w' q = promises w q) \<and>
         nextId w' = nextId w \<and> ctxs w' = ctxs w \<and> nextCtx w' = nextCtx w"
proof -
  obtain e where cs: "changeState h d st v w = (e, w')"
    using assms(2,3)
    by (cases st; cases "changeState h d st v w")
       (auto simp: apply_fn_def completion_def p_resolve_def p_reject_def split: option.splits)
  from changeState_pending [OF assms(1) cs] changeState_frame [OF cs, of q] show ?thesis by simp
qed

lemma capability_node:
  assumes "process h = ProcessObject True" and "p_state (promises w d) = PENDING"
    and "apply_fn h env (if st = FULFILLED then Resolve d else Reject d) v w = (r, w')"
    and "st \<noteq> PENDING"
  shows "r = Inr Undefined \<and>
     promises w' q = (if q = d then \<lparr>p_state = st, p_value = v, p_handlers = []\<rparr> else promises w q) \<and>
     deferred w' = deferred w @ map (\<lambda>x. (NextTick, Task d x)) (p_handlers (promises w d)) \<and>
     nextId w' = nextId w \<and> ctxs w' = ctxs w \<and> nextCtx w' = nextCtx w"
proof -
  obtain e where cs: "changeState h d st v w = (e, w')" and r: "r = (case e of None \<Rightarrow> Inr Undefined | Some x \<Rightarrow> Inl x)"
    using assms(3,4)
    by (cases st; cases "changeState h d st v w")
       (auto simp: apply_fn_def completion_def p_resolve_def p_reject_def split: option.splits)
  from changeState_node [OF assms(1,2,4) cs, of q] r show ?thesis by simp
qed


lemma run_loop_quiescent:
  "deferred w = [] \<Longrightarrow> run_loop n h env w = Some (None, w)"
  by (cases n) (simp_all add: next_task_empty)

lemma run_loop_step:
  "deferred w = (NextTick, t) # rest \<Longrightarrow> run_task h env t (w\<lparr>deferred := rest\<rparr>) = (None, w') \<Longrightarrow>
   run_loop (Suc n) h env w = run_loop n h env w'"
  by (simp add: next_task_head)

lemma then_passthrough_node:
  assumes node: "process h = ProcessObject True"
    and quiet: "deferred w = []" "p_handlers (promises w p) = []"
    and alloc: "p < nextId w"
    and st: "p_state (promises w p) = st" "st \<noteq> PENDING"
    and nf: "if st = FULFILLED then \<not> is_function onFulfilled else \<not> is_function onRejected"
    and call: "MyPromise_then h p onFulfilled onRejected w = (r, w1)"
  shows "r = Inr (nextId w) \<and> p_state (promises w1 (nextId w)) = PENDING \<and>
     (\<exists>w2. run_loop (Suc (Suc n)) h env w1 = Some (None, w2) \<and>
           p_state (promises w2 (nextId w)) = st \<and>
           p_value (promises w2 (nextId w)) = p_value (promises w p) \<and>
           deferred w2 = [])"
proof -
  let ?d = "nextId w"
  let ?hF = "then_handler onFulfilled FULFILLED ?d"
  let ?hR = "then_handler onRejected REJECTED ?d"
  have pd: "p \<noteq> ?d" using alloc by simp
  have stp: "p_state (promises w p) \<noteq> PENDING" using st by simp
  note w1 = then_settled_node [OF node stp pd call]
  have r: "r = Inr ?d" and q1: "deferred w1 = [(NextTick, Task p ?hF), (NextTick, Task p ?hR)]"
    and n1: "nextId w1 = Suc ?d"
    using w1 [of p] quiet by simp_all
  have pw1: "p_state (promises w1 p) = st" "p_value (promises w1 p) = p_value (promises w p)"
    using w1 [of p] pd st by simp_all
  have dw1: "promises w1 ?d = \<lparr>p_state = PENDING, p_value = Undefined, p_handlers = []\<rparr>"
    using w1 [of ?d] by simp
  have st_cases: "st = FULFILLED \<or> st = REJECTED" using st(2) by (cases st) simp_all
  then have "\<exists>w2. run_loop (Suc (Suc n)) h env w1 = Some (None, w2) \<and>
           p_state (promises w2 ?d) = st \<and> p_value (promises w2 ?d) = p_value (promises w p) \<and>
           deferred w2 = []"
  proof
    assume f: "st = FULFILLED"
    let ?wa = "w1\<lparr>deferred := [(NextTick, Task p ?hR)]\<rparr>"
    obtain ra wb where ap: "apply_fn h env (if st = FULFILLED then Resolve ?d else Reject ?d)
        (p_value (promises w p)) ?wa = (ra, wb)"
      by (cases "apply_fn h env (if st = FULFILLED then Resolve ?d else Reject ?d) (p_value (promises w p)) ?wa")
    have pend: "p_state (promises ?wa ?d) = PENDING" using dw1 by simp
    note wb = capability_node [OF node pend ap st(2)]
    have t1: "run_task h env (Task p ?hF) ?wa = (None, wb)"
      using run_task_not_function [of ?hF ?wa p h env] nf f pw1 ap wb [of p]
      by (simp add: discard_def)
    have qb: "deferred wb = [(NextTick, Task p ?hR)]" using wb [of p] dw1 by simp
    have pb: "p_state (promises wb p) = FULFILLED" using wb [of p] pd pw1 f by simp
    have t2: "run_task h env (Task p ?hR) (wb\<lparr>deferred := []\<rparr>) = (None, wb\<lparr>deferred := []\<rparr>)"
      using pb by (simp add: run_task_mismatch)
    have "run_loop (Suc (Suc n)) h env w1 = run_loop (Suc n) h env wb"
      using run_loop_step [OF q1 t1] .
    also have "\<dots> = run_loop n h env (wb\<lparr>deferred := []\<rparr>)"
      using run_loop_step [OF qb t2] .
    also have "\<dots> = Some (None, wb\<lparr>deferred := []\<rparr>)"
      by (simp add: run_loop_quiescent)
    finally show ?thesis using wb [of ?d] by simp
  next
    assume f: "st = REJECTED"
    let ?wa = "w1\<lparr>deferred := [(NextTick, Task p ?hR)]\<rparr>"
    let ?wc = "w1\<lparr>deferred := []\<rparr>"
    have t1: "run_task h env (Task p ?hF) ?wa = (None, ?wa)"
      using pw1 f by (simp add: run_task_mismatch)
    have qa: "deferred ?wa = [(NextTick, Task p ?hR)]" by simp
    obtain ra wb where ap: "apply_fn h env (if st = FULFILLED then Resolve ?d else Reject ?d)
        (p_value (promises w p)) ?wc = (ra, wb)"
      by (cases "apply_fn h env (if st = FULFILLED then Resolve ?d else Reject ?d) (p_value (promises w p)) ?wc")
    have pend: "p_state (promises ?wc ?d) = PENDING" using dw1 by simp
    note wb = capability_node [OF node pend ap st(2)]
    have t2: "run_task h env (Task p ?hR) (?wa\<lparr>deferred := []\<rparr>) = (None, wb)"
      using run_task_not_function [of ?hR ?wc p h env] nf f pw1 ap wb [of p]
      by (simp add: discard_def)
    have qb: "deferred wb = []" using wb [of p] dw1 by simp
    have "run_loop (Suc (Suc n)) h env w1 = run_loop (Suc n) h env ?wa"
      using run_loop_step [OF q1 t1] .
    also have "\<dots> = run_loop n h env wb"
      using run_loop_step [OF qa t2] .
    also have "\<dots> = Some (None, wb)"
      using qb by (simp add: run_loop_quiescent)
    finally show ?thesis using wb [of ?d] qb by simp
  qed
  with r dw1 show ?thesis by simp
qed

lemma run_task_function:
  "p_state (promises w p) = state hdl \<Longrightarrow> executor hdl = Fn f \<Longrightarrow>
   run_task h env (Task p hdl) w =
     (case (case apply_fn h env f (p_value (promises w p)) w of
              (Inl e, w1) \<Rightarrow> (Some e, w1)
            | (Inr result, w1) \<Rightarrow>
                if isPromise result
                then discard (call_then h env result (resolve hdl) (reject hdl) w1)
                else discard (apply_fn h env (resolve hdl) result w1)) of
        (None, w2) \<Rightarrow> (None, w2)
      | (Some error, w2) \<Rightarrow> discard (apply_fn h env (reject hdl) error w2))"
  by (simp add: run_task_def call_value_def)

lemma run_task_capability_node:
  assumes node: "process h = ProcessObject True"
    and st: "p_state (promises w q) = st" "st \<noteq> PENDING"
    and d: "p_state (promises w d) = PENDING" "p_handlers (promises w d) = []"
    and d2: "p_state (promises w d2) = PENDING" "p_handlers (promises w d2) = []"
    and ne: "d \<noteq> d2"
    and run: "run_task h env (Task q (then_handler (Fn (if st = FULFILLED then Resolve d else Reject d)) st d2)) w = (e, w')"
  shows "e = None \<and>
     promises w' x =
       (if x = d then \<lparr>p_state = st, p_value = p_value (promises w q), p_handlers = []\<rparr>
        else if x = d2 then \<lparr>p_state = FULFILLED, p_value = Undefined, p_handlers = []\<rparr>
        else promises w x) \<and>
     deferred w' = deferred w \<and> nextId w' = nextId w \<and> ctxs w' = ctxs w \<and> nextCtx w' = nextCtx w"
proof -
  let ?f = "if st = FULFILLED then Resolve d else Reject d"
  let ?v = "p_value (promises w q)"
  obtain r1 w1 where a1: "apply_fn h env ?f ?v w = (r1, w1)" by (cases "apply_fn h env ?f ?v w")
  note o1 = capability_node [OF node d(1) a1 st(2)]
  have r1: "r1 = Inr Undefined" using o1 [of d] by simp
  have pend2: "p_state (promises w1 d2) = PENDING" using o1 [of d2] ne d2 by simp
  obtain r2 w2 where a2: "apply_fn h env (if FULFILLED = FULFILLED then Resolve d2 else Reject d2) Undefined w1 = (r2, w2)"
    by (cases "apply_fn h env (if FULFILLED = FULFILLED then Resolve d2 else Reject d2) Undefined w1")
  note o2 = capability_node [OF node pend2 a2]
  have "run_task h env (Task q (then_handler (Fn ?f) st d2)) w = (None, w2)"
    using run_task_function [of w q "then_handler (Fn ?f) st d2" ?f h env] st a1 r1 a2 o2 [of d2]
    by (simp add: isPromise_def discard_def)
  with run have "e = None" and "w' = w2" by simp_all
  with o1 [of x] o1 [of d2] o2 [of x] d d2 ne show ?thesis by auto
qed


lemma adoption_pair_node:
  assumes node: "process h = ProcessObject True"
    and q: "deferred w = [(NextTick, Task q (then_handler (Fn (Resolve d)) FULFILLED d2)),
                          (NextTick, Task q (then_handler (Fn (Reject d)) REJECTED d2))]"
    and st: "p_state (promises w q) \<noteq> PENDING"
    and d: "p_state (promises w d) = PENDING" "p_handlers (promises w d) = []"
    and d2: "p_state (promises w d2) = PENDING" "p_handlers (promises w d2) = []"
    and ne: "d \<noteq> d2"
  shows "\<exists>w3. run_loop (Suc (Suc n)) h env w = Some (None, w3) \<and>
     (\<forall>x. promises w3 x =
       (if x = d then \<lparr>p_state = p_state (promises w q), p_value = p_value (promises w q), p_handlers = []\<rparr>
        else if x = d2 then \<lparr>p_state = FULFILLED, p_value = Undefined, p_handlers = []\<rparr>
        else promises w x)) \<and>
     deferred w3 = [] \<and> nextId w3 = nextId w \<and> ctxs w3 = ctxs w \<and> nextCtx w3 = nextCtx w"
proof -
  let ?A1 = "then_handler (Fn (Resolve d)) FULFILLED d2"
  let ?A2 = "then_handler (Fn (Reject d)) REJECTED d2"
  let ?st = "p_state (promises w q)"
  have qd: "q \<noteq> d" "q \<noteq> d2" using st d d2 by auto
  have cases: "?st = FULFILLED \<or> ?st = REJECTED" using st by (cases ?st) simp_all
  then show ?thesis
  proof
    assume f: "?st = FULFILLED"
    let ?wa = "w\<lparr>deferred := [(NextTick, Task q ?A2)]\<rparr>"
    obtain e1 wb where t1: "run_task h env (Task q ?A1) ?wa = (e1, wb)"
      by (cases "run_task h env (Task q ?A1) ?wa")
    have t1': "run_task h env (Task q (then_handler (Fn (if FULFILLED = FULFILLED then Resolve d else Reject d)) FULFILLED d2)) ?wa = (e1, wb)"
      using t1 by simp
    note o1 = run_task_capability_node [OF node _ _ _ _ _ _ ne t1', simplified, OF f d d2]
    have e1: "e1 = None" using o1 by simp
    have qb: "deferred wb = [(NextTick, Task q ?A2)]" using o1 by simp
    have "p_state (promises wb q) = FULFILLED" using o1 qd f by simp
    then have t2: "run_task h env (Task q ?A2) (wb\<lparr>deferred := []\<rparr>) = (None, wb\<lparr>deferred := []\<rparr>)"
      by (simp add: run_task_mismatch)
    have "run_loop (Suc (Suc n)) h env w = run_loop (Suc n) h env wb"
      using run_loop_step [OF q] t1 e1 by simp
    also have "\<dots> = run_loop n h env (wb\<lparr>deferred := []\<rparr>)"
      using run_loop_step [OF qb t2] .
    also have "\<dots> = Some (None, wb\<lparr>deferred := []\<rparr>)"
      by (simp add: run_loop_quiescent)
    finally show ?thesis using o1 f by simp
  next
    assume f: "?st = REJECTED"
    let ?wa = "w\<lparr>deferred := [(NextTick, Task q ?A2)]\<rparr>"
    let ?wc = "w\<lparr>deferred := []\<rparr>"
    have t1: "run_task h env (Task q ?A1) ?wa = (None, ?wa)"
      using f by (simp add: run_task_mismatch)
    have qa: "deferred ?wa = [(NextTick, Task q ?A2)]" by simp
    obtain e2 wb where t2: "run_task h env (Task q ?A2) ?wc = (e2, wb)"
      by (cases "run_task h env (Task q ?A2) ?wc")
    have t2': "run_task h env (Task q (then_handler (Fn (if REJECTED = FULFILLED then Resolve d else Reject d)) REJECTED d2)) ?wc = (e2, wb)"
      using t2 by simp
    note o2 = run_task_capability_node [OF node _ _ _ _ _ _ ne t2', simplified, OF f d d2]
    have e2: "e2 = None" using o2 by simp
    have "run_loop (Suc (Suc n)) h env w = run_loop (Suc n) h env ?wa"
      using run_loop_step [OF q t1] .
    also have "\<dots> = run_loop n h env wb"
      using run_loop_step [OF qa] t2 e2 by simp
    also have "\<dots> = Some (None, wb)"
      using o2 by (simp add: run_loop_quiescent)
    finally show ?thesis using o2 f by simp
  qed
qed


lemma capability_settled:
  "p_state (promises w d) \<noteq> PENDING \<Longrightarrow>
   apply_fn h env (Resolve d) v w = (Inr Undefined, w) \<and> apply_fn h env (Reject d) v w = (Inr Undefined, w)"
  by (simp add: changeState_settled p_resolve_def p_reject_def apply_fn_def completion_def)

section \<open>Facts about all\<close>

lemma run_task_settler_node:
  assumes node: "process h = ProcessObject True"
    and st: "p_state (promises w q) = st" "st \<noteq> PENDING"
    and a: "p_handlers (promises w a) = []"
    and d2: "p_state (promises w d2) = PENDING" "p_handlers (promises w d2) = []"
    and ne: "a \<noteq> d2"
    and run: "run_task h env (Task q (then_handler (Fn (Reject a)) st d2)) w = (e, w')"
  shows "e = None \<and>
     promises w' x =
       (if x = a \<and> p_state (promises w a) = PENDING
        then \<lparr>p_state = REJECTED, p_value = p_value (promises w q), p_handlers = []\<rparr>
        else if x = d2 then \<lparr>p_state = FULFILLED, p_value = Undefined, p_handlers = []\<rparr>
        else promises w x) \<and>
     deferred w' = deferred w \<and> nextId w' = nextId w \<and> ctxs w' = ctxs w \<and> nextCtx w' = nextCtx w"
proof -
  let ?v = "p_value (promises w q)"
  obtain r1 w1 where a1: "apply_fn h env (Reject a) ?v w = (r1, w1)" by (cases "apply_fn h env (Reject a) ?v w")
  have o1: "r1 = Inr Undefined \<and>
     promises w1 x = (if x = a \<and> p_state (promises w a) = PENDING
        then \<lparr>p_state = REJECTED, p_value = ?v, p_handlers = []\<rparr> else promises w x) \<and>
     promises w1 d2 = promises w d2 \<and>
     deferred w1 = deferred w \<and> nextId w1 = nextId w \<and> ctxs w1 = ctxs w \<and> nextCtx w1 = nextCtx w"
  proof (cases "p_state (promises w a) = PENDING")
    case True
    have a1': "apply_fn h env (if REJECTED = FULFILLED then Resolve a else Reject a) ?v w = (r1, w1)"
      using a1 by simp
    from capability_node [OF node True a1', of x] capability_node [OF node True a1', of d2] a ne True
    show ?thesis by simp
  next
    case False
    from capability_settled [OF False, of h env ?v] a1 False show ?thesis by simp
  qed
  have pend2: "p_state (promises w1 d2) = PENDING" using o1 d2 by simp
  obtain r2 w2 where a2: "apply_fn h env (if FULFILLED = FULFILLED then Resolve d2 else Reject d2) Undefined w1 = (r2, w2)"
    by (cases "apply_fn h env (if FULFILLED = FULFILLED then Resolve d2 else Reject d2) Undefined w1")
  note o2 = capability_node [OF node pend2 a2]
  have "run_task h env (Task q (then_handler (Fn (Reject a)) st d2)) w = (None, w2)"
    using run_task_function [of w q "then_handler (Fn (Reject a)) st d2" "Reject a" h env] st a1 o1 a2 o2 [of d2]
    by (simp add: isPromise_def discard_def)
  with run have "e = None" and "w' = w2" by simp_all
  with o1 o2 [of x] d2 ne show ?thesis by auto
qed

lemma all_onFulfilled_node:
  assumes node: "process h = ProcessObject True"
    and a: "p_handlers (promises w a) = []"
    and run: "all_onFulfilled h a c i data w = (e, w')"
  shows "e = None \<and>
     promises w' x =
       (if x = a \<and> p_state (promises w a) = PENDING \<and>
           Suc (fulfilledCount (ctxs w c)) = count (ctxs w c)
        then \<lparr>p_state = FULFILLED, p_value = ArrRef c, p_handlers = []\<rparr>
        else promises w x) \<and>
     ctxs w' y =
       (if y = c then (ctxs w c)\<lparr>fulfilledCount := Suc (fulfilledCount (ctxs w c)),
                                 results := array_set (results (ctxs w c)) i data\<rparr>
        else ctxs w y) \<and>
     deferred w' = deferred w \<and> nextId w' = nextId w \<and> nextCtx w' = nextCtx w"
proof -
  let ?cx = "(ctxs w c)\<lparr>fulfilledCount := Suc (fulfilledCount (ctxs w c)),
                         results := array_set (results (ctxs w c)) i data\<rparr>"
  let ?w1 = "w\<lparr>ctxs := (ctxs w)(c := ?cx)\<rparr>"
  show ?thesis
  proof (cases "Suc (fulfilledCount (ctxs w c)) = count (ctxs w c)")
    case False
    with run show ?thesis by (auto simp: all_onFulfilled_def Let_def)
  next
    case True
    with run have r: "p_resolve h a (ArrRef c) ?w1 = (e, w')"
      by (simp add: all_onFulfilled_def Let_def)
    show ?thesis
    proof (cases "p_state (promises w a) = PENDING")
      case P: True
      then have pe: "p_state (promises ?w1 a) = PENDING" by simp
      from r have cs: "changeState h a FULFILLED (ArrRef c) ?w1 = (e, w')" by (simp add: p_resolve_def)
      from changeState_node [OF node pe _ cs, of x] a True P show ?thesis by simp
    next
      case N: False
      then have "p_state (promises ?w1 a) \<noteq> PENDING" by simp
      from changeState_settled [OF this, of h FULFILLED "ArrRef c"] r N show ?thesis
        by (auto simp: p_resolve_def)
    qed
  qed
qed

lemma run_task_all_callback_node:
  assumes node: "process h = ProcessObject True"
    and st: "p_state (promises w q) = FULFILLED"
    and a: "p_handlers (promises w a) = []"
    and d2: "p_state (promises w d2) = PENDING" "p_handlers (promises w d2) = []"
    and ne: "a \<noteq> d2"
    and run: "run_task h env (Task q (then_handler (Fn (AllThen a c i)) FULFILLED d2)) w = (e, w')"
  shows "e = None \<and>
     promises w' x =
       (if x = a \<and> p_state (promises w a) = PENDING \<and>
           Suc (fulfilledCount (ctxs w c)) = count (ctxs w c)
        then \<lparr>p_state = FULFILLED, p_value = ArrRef c, p_handlers = []\<rparr>
        else if x = d2 then \<lparr>p_state = FULFILLED, p_value = Undefined, p_handlers = []\<rparr>
        else promises w x) \<and>
     ctxs w' y =
       (if y = c then (ctxs w c)\<lparr>fulfilledCount := Suc (fulfilledCount (ctxs w c)),
                                 results := array_set (results (ctxs w c)) i (p_value (promises w q))\<rparr>
        else ctxs w y) \<and>
     deferred w' = deferred w \<and> nextId w' = nextId w \<and> nextCtx w' = nextCtx w"
proof -
  let ?v = "p_value (promises w q)"
  obtain e1 w1 where a1: "all_onFulfilled h a c i ?v w = (e1, w1)"
    by (cases "all_onFulfilled h a c i ?v w")
  note o1 = all_onFulfilled_node [OF node a a1]
  have e1: "e1 = None" using o1 [of a c] by simp
  have pend2: "p_state (promises w1 d2) = PENDING" using o1 [of d2 c] d2 ne by simp
  obtain r2 w2 where a2: "apply_fn h env (if FULFILLED = FULFILLED then Resolve d2 else Reject d2) Undefined w1 = (r2, w2)"
    by (cases "apply_fn h env (if FULFILLED = FULFILLED then Resolve d2 else Reject d2) Undefined w1")
  note o2 = capability_node [OF node pend2 a2]
  have "run_task h env (Task q (then_handler (Fn (AllThen a c i)) FULFILLED d2)) w = (None, w2)"
    using run_task_function [of w q "then_handler (Fn (AllThen a c i)) FULFILLED d2" "AllThen a c i" h env]
      st a1 e1 a2 o2 [of d2]
    by (simp add: apply_fn_def completion_def isPromise_def discard_def)
  with run have "e = None" and "w' = w2" by simp_all
  with o1 [of x y] o1 [of d2 y] o2 [of x] d2 ne show ?thesis by auto
qed

lemma all_loop_pending:
  assumes "distinct qs"
    and "\<forall>q\<in>set qs. q < nextId w \<and> p_state (promises w q) = PENDING"
    and "all_loop h env a c (map PromiseRef qs) w = (e, w')"
  shows "e = None \<and> nextId w' = nextId w + length qs \<and> nextCtx w' = nextCtx w \<and>
     deferred w' = deferred w \<and>
     ctxs w' y = (if y = c then (ctxs w c)\<lparr>count := count (ctxs w c) + length qs\<rparr> else ctxs w y) \<and>
     (\<forall>j<length qs. promises w' (qs ! j) =
        (promises w (qs ! j))\<lparr>p_handlers := p_handlers (promises w (qs ! j)) @
           [then_handler (Fn (AllThen a c (count (ctxs w c) + j))) FULFILLED (nextId w + j),
            then_handler (Fn (Reject a)) REJECTED (nextId w + j)]\<rparr>) \<and>
     (\<forall>j<length qs. promises w' (nextId w + j) =
        \<lparr>p_state = PENDING, p_value = Undefined, p_handlers = []\<rparr>) \<and>
     (\<forall>x. x \<notin> set qs \<and> x < nextId w \<longrightarrow> promises w' x = promises w x)"
  using assms
proof (induction qs arbitrary: w)
  case Nil
  then show ?case by (cases "ctxs w c") simp
next
  case (Cons q qs)
  let ?i = "count (ctxs w c)"
  let ?w1 = "w\<lparr>ctxs := (ctxs w)(c := (ctxs w c)\<lparr>count := Suc ?i\<rparr>)\<rparr>"
  have qp: "p_state (promises ?w1 q) = PENDING" and qn: "q \<noteq> nextId ?w1"
    using Cons.prems(2) by auto
  obtain r3 w3 where t: "MyPromise_then h q (Fn (AllThen a c ?i)) (Fn (Reject a)) ?w1 = (r3, w3)"
    by (cases "MyPromise_then h q (Fn (AllThen a c ?i)) (Fn (Reject a)) ?w1")
  note o3 = then_pending [OF qp qn t]
  have r3: "r3 = Inr (nextId w)" using o3 [of q] by simp
  have loop: "all_loop h env a c (map PromiseRef qs) w3 = (e, w')"
    using Cons.prems(3) t r3 by (simp add: MyPromise_resolve_def Let_def)
  have d: "distinct qs" and qnot: "q \<notin> set qs" using Cons.prems(1) by simp_all
  have n3: "nextId w3 = Suc (nextId w)" using o3 [of q] by simp
  have pre: "\<forall>x\<in>set qs. x < nextId w3 \<and> p_state (promises w3 x) = PENDING"
  proof
    fix x assume x: "x \<in> set qs"
    then have "x < nextId w" "p_state (promises w x) = PENDING" "x \<noteq> q"
      using Cons.prems(2) qnot by auto
    with o3 [of x] n3 show "x < nextId w3 \<and> p_state (promises w3 x) = PENDING" by simp
  qed
  note ih = Cons.IH [OF d pre loop]
  have c3: "ctxs w3 = ctxs ?w1" using o3 [of q] by simp
  have cnt3: "count (ctxs w3 c) = Suc ?i" using c3 by simp
  have e: "e = None" and nid: "nextId w' = nextId w + length (q # qs)"
    and ncx: "nextCtx w' = nextCtx w" and df: "deferred w' = deferred w"
    using ih n3 o3 [of q] by simp_all
  have cx: "ctxs w' y = (if y = c then (ctxs w c)\<lparr>count := count (ctxs w c) + length (q # qs)\<rparr> else ctxs w y)"
    using ih c3 by simp
  have hq: "\<forall>j<length (q # qs). promises w' ((q # qs) ! j) =
        (promises w ((q # qs) ! j))\<lparr>p_handlers := p_handlers (promises w ((q # qs) ! j)) @
           [then_handler (Fn (AllThen a c (?i + j))) FULFILLED (nextId w + j),
            then_handler (Fn (Reject a)) REJECTED (nextId w + j)]\<rparr>"
  proof (intro allI impI)
    fix j assume j: "j < length (q # qs)"
    show "promises w' ((q # qs) ! j) =
        (promises w ((q # qs) ! j))\<lparr>p_handlers := p_handlers (promises w ((q # qs) ! j)) @
           [then_handler (Fn (AllThen a c (?i + j))) FULFILLED (nextId w + j),
            then_handler (Fn (Reject a)) REJECTED (nextId w + j)]\<rparr>"
    proof (cases j)
      case 0
      have "q < nextId w3" using Cons.prems(2) n3 by simp
      with ih qnot have "promises w' q = promises w3 q" by blast
      with o3 [of q] 0 show ?thesis using Cons.prems(2) by simp
    next
      case (Suc k)
      with j have k: "k < length qs" by simp
      then have "qs ! k \<in> set qs" by simp
      then have ne: "qs ! k \<noteq> q" "qs ! k \<noteq> nextId w" using qnot Cons.prems(2) by auto
      from ih k have "promises w' (qs ! k) =
        (promises w3 (qs ! k))\<lparr>p_handlers := p_handlers (promises w3 (qs ! k)) @
           [then_handler (Fn (AllThen a c (count (ctxs w3 c) + k))) FULFILLED (nextId w3 + k),
            then_handler (Fn (Reject a)) REJECTED (nextId w3 + k)]\<rparr>"
        by blast
      with o3 [of "qs ! k"] ne cnt3 n3 Suc show ?thesis by simp
    qed
  qed
  have hd: "\<forall>j<length (q # qs). promises w' (nextId w + j) =
        \<lparr>p_state = PENDING, p_value = Undefined, p_handlers = []\<rparr>"
  proof (intro allI impI)
    fix j assume j: "j < length (q # qs)"
    show "promises w' (nextId w + j) = \<lparr>p_state = PENDING, p_value = Undefined, p_handlers = []\<rparr>"
    proof (cases j)
      case 0
      have "nextId w \<notin> set qs" using Cons.prems(2) by auto
      moreover have "nextId w < nextId w3" using n3 by simp
      ultimately have "promises w' (nextId w) = promises w3 (nextId w)" using ih by blast
      with o3 [of "nextId w"] 0 show ?thesis by simp
    next
      case (Suc k)
      with j have k: "k < length qs" by simp
      with ih have "promises w' (nextId w3 + k) = \<lparr>p_state = PENDING, p_value = Undefined, p_handlers = []\<rparr>"
        by blast
      with n3 Suc show ?thesis by simp
    qed
  qed
  have fr: "\<forall>x. x \<notin> set (q # qs) \<and> x < nextId w \<longrightarrow> promises w' x = promises w x"
  proof (intro allI impI)
    fix x assume x: "x \<notin> set (q # qs) \<and> x < nextId w"
    then have "x \<notin> set qs \<and> x < nextId w3" using n3 by simp
    with ih have "promises w' x = promises w3 x" by blast
    with o3 [of x] x show "promises w' x = promises w x" by simp
  qed
  from e nid ncx df cx hq hd fr show ?case by blast
qed

lemma changeState_no_handlers:
  "p_state (promises w p) = PENDING \<Longrightarrow> p_handlers (promises w p) = [] \<Longrightarrow>
   changeState h p s v w = (None, set_promise p ((promises w p)\<lparr>p_state := s, p_value := v\<rparr>) w)"
  by (simp add: changeState_def runHandlers_def runHandlers_loop.simps)

lemma all_empty:
  assumes "MyPromise_all h env [] w = (r, w1)"
  shows "r = Inr (nextId w) \<and>
     promises w1 (nextId w) = \<lparr>p_state = FULFILLED, p_value = ArrRef (nextCtx w), p_handlers = []\<rparr> \<and>
     results (ctxs w1 (nextCtx w)) = [] \<and> deferred w1 = deferred w"
  using assms
  by (auto simp: MyPromise_all_def new_MyPromise_def Let_def p_resolve_def changeState_no_handlers)

lemma all_pending:
  assumes dist: "distinct qs"
    and pend: "\<forall>q\<in>set qs. q < nextId w \<and> p_state (promises w q) = PENDING"
    and ne: "qs \<noteq> []"
    and call: "MyPromise_all h env (map PromiseRef qs) w = (r, w1)"
  shows "r = Inr (nextId w) \<and> nextId w1 = Suc (nextId w) + length qs \<and> nextCtx w1 = Suc (nextCtx w) \<and>
     deferred w1 = deferred w \<and>
     ctxs w1 (nextCtx w) = \<lparr>results = [], count = length qs, fulfilledCount = 0\<rparr> \<and>
     promises w1 (nextId w) = \<lparr>p_state = PENDING, p_value = Undefined, p_handlers = []\<rparr> \<and>
     (\<forall>j<length qs. promises w1 (qs ! j) =
        (promises w (qs ! j))\<lparr>p_handlers := p_handlers (promises w (qs ! j)) @
           [then_handler (Fn (AllThen (nextId w) (nextCtx w) j)) FULFILLED (Suc (nextId w) + j),
            then_handler (Fn (Reject (nextId w))) REJECTED (Suc (nextId w) + j)]\<rparr>) \<and>
     (\<forall>j<length qs. promises w1 (Suc (nextId w) + j) =
        \<lparr>p_state = PENDING, p_value = Undefined, p_handlers = []\<rparr>) \<and>
     (\<forall>x. x \<notin> set qs \<and> x < nextId w \<longrightarrow> promises w1 x = promises w x)"
proof -
  let ?a = "nextId w" and ?c = "nextCtx w"
  let ?w0 = "(init_promise w)\<lparr>nextCtx := Suc ?c,
       ctxs := (ctxs (init_promise w))(?c := \<lparr>results = [], count = 0, fulfilledCount = 0\<rparr>)\<rparr>"
  obtain e2 w2 where loop: "all_loop h env ?a ?c (map PromiseRef qs) ?w0 = (e2, w2)"
    by (cases "all_loop h env ?a ?c (map PromiseRef qs) ?w0")
  have pre: "\<forall>q\<in>set qs. q < nextId ?w0 \<and> p_state (promises ?w0 q) = PENDING"
    using pend by auto
  note o = all_loop_pending [OF dist pre loop]
  have e2: "e2 = None" using o [of ?c] by simp
  have cnt: "count (ctxs w2 ?c) = length qs" using o [of ?c] by simp
  then have nz: "count (ctxs w2 ?c) \<noteq> 0" using ne by simp
  from call loop e2 nz have res: "r = Inr ?a" "w1 = w2"
    by (simp_all add: MyPromise_all_def new_MyPromise_def Let_def)
  have a: "promises w2 ?a = promises ?w0 ?a"
  proof -
    have "?a \<notin> set qs" using pend by auto
    with o [of ?c] show ?thesis by simp
  qed
  have fr: "\<forall>x. x \<notin> set qs \<and> x < nextId w \<longrightarrow> promises w2 x = promises w x"
  proof (intro allI impI)
    fix x assume x: "x \<notin> set qs \<and> x < nextId w"
    with o [of ?c] have "promises w2 x = promises ?w0 x" by simp
    with x show "promises w2 x = promises w x" by simp
  qed
  have hq: "\<forall>j<length qs. promises w2 (qs ! j) =
        (promises w (qs ! j))\<lparr>p_handlers := p_handlers (promises w (qs ! j)) @
           [then_handler (Fn (AllThen ?a ?c j)) FULFILLED (Suc ?a + j),
            then_handler (Fn (Reject ?a)) REJECTED (Suc ?a + j)]\<rparr>"
  proof (intro allI impI)
    fix j assume j: "j < length qs"
    then have "qs ! j \<in> set qs" by simp
    then have "qs ! j \<noteq> ?a" using pend by auto
    with o [of ?c] j show "promises w2 (qs ! j) =
        (promises w (qs ! j))\<lparr>p_handlers := p_handlers (promises w (qs ! j)) @
           [then_handler (Fn (AllThen ?a ?c j)) FULFILLED (Suc ?a + j),
            then_handler (Fn (Reject ?a)) REJECTED (Suc ?a + j)]\<rparr>"
      by simp
  qed
  have hd: "\<forall>j<length qs. promises w2 (Suc ?a + j) =
        \<lparr>p_state = PENDING, p_value = Undefined, p_handlers = []\<rparr>"
    using o [of ?c] by simp
  from res a fr hq hd o [of ?c] show ?thesis by simp
qed

lemma length_array_set: "length (array_set xs i v) = max (length xs) (Suc i)"
  by (auto simp: array_set_def)

lemma nth_array_set:
  "j < length (array_set xs i v) \<Longrightarrow>
   array_set xs i v ! j = (if j = i then Some v else if j < length xs then xs ! j else None)"
  by (auto simp: array_set_def nth_append length_array_set)

lemma all_inv_room:
  assumes "all_inv a c qs m k rj D w" and "i < length qs" and "i \<notin> D"
  shows "k < length qs"
proof -
  from assms have D: "D \<subseteq> {..<length qs}" and k: "k \<le> card D" by (simp_all add: all_inv_def)
  then have fin: "finite D" by (meson finite_lessThan finite_subset)
  from D assms(2) have "insert i D \<subseteq> {..<length qs}" by simp
  then have "card (insert i D) \<le> card {..<length qs}" by (intro card_mono) simp_all
  with fin assms(3) k show ?thesis by simp
qed

lemma all_inv_fulfil_step:
  assumes node: "process h = ProcessObject True"
    and dist: "distinct qs" and below: "\<forall>q\<in>set qs. q < a"
    and inv: "all_inv a c qs m k rj D w"
    and i: "i < length qs" "i \<notin> D"
  shows "\<exists>w1 w2. changeState h (qs ! i) FULFILLED v w = (None, w1) \<and>
           run_loop (Suc (Suc 0)) h env w1 = Some (None, w2) \<and>
           all_inv a c qs (m(i \<mapsto> v)) (Suc k) rj (insert i D) w2"
proof -
  let ?q = "qs ! i" and ?d = "Suc a + i"
  let ?T = "Task ?q (then_handler (Fn (AllThen a c i)) FULFILLED ?d)"
  let ?T' = "Task ?q (then_handler (Fn (Reject a)) REJECTED ?d)"
  let ?R = "results (ctxs w c)"
  have qa: "?q < a" using below i by simp
  from inv i have qpend: "p_state (promises w ?q) = PENDING"
    and qh: "p_handlers (promises w ?q) =
       [then_handler (Fn (AllThen a c i)) FULFILLED ?d, then_handler (Fn (Reject a)) REJECTED ?d]"
    and dfresh: "promises w ?d = \<lparr>p_state = PENDING, p_value = Undefined, p_handlers = []\<rparr>"
    and ah: "p_handlers (promises w a) = []" and quiet: "deferred w = []"
    by (simp_all add: all_inv_def)
  obtain e1 w1 where cs: "changeState h ?q FULFILLED v w = (e1, w1)"
    by (cases "changeState h ?q FULFILLED v w")
  note o1 = changeState_node [OF node qpend _ cs]
  have e1: "e1 = None" using o1 [of ?q] by simp
  have dq1: "deferred w1 = [(NextTick, ?T), (NextTick, ?T')]" using o1 [of ?q] quiet qh by simp
  let ?wa = "w1\<lparr>deferred := [(NextTick, ?T')]\<rparr>"
  obtain e2 wb where t1: "run_task h env ?T ?wa = (e2, wb)" by (cases "run_task h env ?T ?wa")
  have pa: "p_state (promises ?wa ?q) = FULFILLED" using o1 [of ?q] by simp
  have aha: "p_handlers (promises ?wa a) = []" using o1 [of a] qa ah by simp
  have da: "p_state (promises ?wa ?d) = PENDING" "p_handlers (promises ?wa ?d) = []"
    using o1 [of ?d] qa dfresh by simp_all
  have ad: "a \<noteq> ?d" by simp
  note ob = run_task_all_callback_node [OF node pa aha da ad t1]
  have e2: "e2 = None" using ob [of a c] by simp
  have dqb: "deferred wb = [(NextTick, ?T')]" using ob [of a c] by simp
  have "p_state (promises wb ?q) = FULFILLED" using ob [of ?q c] o1 [of ?q] qa by simp
  then have t2: "run_task h env ?T' (wb\<lparr>deferred := []\<rparr>) = (None, wb\<lparr>deferred := []\<rparr>)"
    by (simp add: run_task_mismatch)
  let ?w2 = "wb\<lparr>deferred := []\<rparr>"
  have "run_loop (Suc (Suc 0)) h env w1 = run_loop (Suc 0) h env wb"
    using run_loop_step [OF dq1] t1 e2 by simp
  also have "\<dots> = run_loop 0 h env ?w2" using run_loop_step [OF dqb t2] .
  also have "\<dots> = Some (None, ?w2)" by (rule run_loop_quiescent) simp
  finally have loop: "run_loop (Suc (Suc 0)) h env w1 = Some (None, ?w2)" .
  have kn: "k < length qs" using all_inv_room [OF inv i] .
  from inv have cnt: "count (ctxs w c) = length qs" and fc: "fulfilledCount (ctxs w c) = k"
    and lenR: "length ?R \<le> length qs"
    and Rm: "\<forall>j<length ?R. ?R ! j = m j" and mR: "\<forall>j. m j \<noteq> None \<longrightarrow> j < length ?R"
    and D: "D \<subseteq> {..<length qs}" and kD: "k \<le> card D"
    by (simp_all add: all_inv_def)
  have c1: "ctxs ?wa = ctxs w" "p_value (promises ?wa ?q) = v" using o1 [of ?q] by simp_all
  have cx2: "ctxs ?w2 c = (ctxs w c)\<lparr>fulfilledCount := Suc k, results := array_set ?R i v\<rparr>"
    using ob [of a c] c1 fc by simp
  have pr2: "\<And>x. promises ?w2 x =
       (if x = a \<and> p_state (promises w a) = PENDING \<and> Suc k = length qs
        then \<lparr>p_state = FULFILLED, p_value = ArrRef c, p_handlers = []\<rparr>
        else if x = ?d then \<lparr>p_state = FULFILLED, p_value = Undefined, p_handlers = []\<rparr>
        else if x = ?q then \<lparr>p_state = FULFILLED, p_value = v, p_handlers = []\<rparr>
        else promises w x)"
  proof -
    fix x
    show "promises ?w2 x =
       (if x = a \<and> p_state (promises w a) = PENDING \<and> Suc k = length qs
        then \<lparr>p_state = FULFILLED, p_value = ArrRef c, p_handlers = []\<rparr>
        else if x = ?d then \<lparr>p_state = FULFILLED, p_value = Undefined, p_handlers = []\<rparr>
        else if x = ?q then \<lparr>p_state = FULFILLED, p_value = v, p_handlers = []\<rparr>
        else promises w x)"
      using ob [of x c] o1 [of x] o1 [of a] c1 fc cnt qa by auto
  qed
  have fin: "finite D" using D by (meson finite_lessThan finite_subset)
  have inv2: "all_inv a c qs (m(i \<mapsto> v)) (Suc k) rj (insert i D) ?w2"
    unfolding all_inv_def
  proof (intro conjI)
    show "deferred ?w2 = []" by simp
    show "count (ctxs ?w2 c) = length qs" using cx2 cnt by simp
    show "fulfilledCount (ctxs ?w2 c) = Suc k" using cx2 by simp
    show "length (results (ctxs ?w2 c)) \<le> length qs"
      using cx2 lenR i by (simp add: length_array_set)
    show "\<forall>j<length (results (ctxs ?w2 c)). results (ctxs ?w2 c) ! j = (m(i \<mapsto> v)) j"
    proof (intro allI impI)
      fix j assume j: "j < length (results (ctxs ?w2 c))"
      then have j': "j < length (array_set ?R i v)" using cx2 by simp
      show "results (ctxs ?w2 c) ! j = (m(i \<mapsto> v)) j"
      proof (cases "j = i")
        case True
        with nth_array_set [OF j'] cx2 show ?thesis by simp
      next
        case False
        show ?thesis
        proof (cases "j < length ?R")
          case True
          with nth_array_set [OF j'] cx2 False Rm show ?thesis by simp
        next
          case F: False
          with mR have "m j = None" by auto
          with nth_array_set [OF j'] cx2 False F show ?thesis by simp
        qed
      qed
    qed
    show "\<forall>j. (m(i \<mapsto> v)) j \<noteq> None \<longrightarrow> j < length (results (ctxs ?w2 c))"
      using cx2 mR by (auto simp: length_array_set max_def)
    show "p_handlers (promises ?w2 a) = []" using pr2 [of a] ah qa by auto
    show "case rj of
        Some r \<Rightarrow> p_state (promises ?w2 a) = REJECTED \<and> p_value (promises ?w2 a) = r
      | None \<Rightarrow>
          if Suc k = length qs
          then p_state (promises ?w2 a) = FULFILLED \<and> p_value (promises ?w2 a) = ArrRef c
          else p_state (promises ?w2 a) = PENDING"
      using inv kn pr2 [of a] qa by (auto simp: all_inv_def split: option.splits)
    show "insert i D \<subseteq> {..<length qs}" using D i by simp
    show "Suc k \<le> card (insert i D)" using kD fin i by simp
    show "\<forall>j<length qs. j \<notin> insert i D \<longrightarrow>
        p_state (promises ?w2 (qs ! j)) = PENDING \<and>
        p_handlers (promises ?w2 (qs ! j)) =
          [then_handler (Fn (AllThen a c j)) FULFILLED (Suc a + j),
           then_handler (Fn (Reject a)) REJECTED (Suc a + j)] \<and>
        promises ?w2 (Suc a + j) = \<lparr>p_state = PENDING, p_value = Undefined, p_handlers = []\<rparr>"
    proof (intro allI impI)
      fix j assume j: "j < length qs" "j \<notin> insert i D"
      then have ji: "j \<noteq> i" "j \<notin> D" by simp_all
      have qj: "qs ! j \<noteq> ?q" using dist j(1) i(1) ji(1) by (simp add: nth_eq_iff_index_eq)
      have qja: "qs ! j < a" using below j(1) by simp
      from inv j(1) ji(2) have old: "p_state (promises w (qs ! j)) = PENDING \<and>
        p_handlers (promises w (qs ! j)) =
          [then_handler (Fn (AllThen a c j)) FULFILLED (Suc a + j),
           then_handler (Fn (Reject a)) REJECTED (Suc a + j)] \<and>
        promises w (Suc a + j) = \<lparr>p_state = PENDING, p_value = Undefined, p_handlers = []\<rparr>"
        by (simp add: all_inv_def)
      with pr2 [of "qs ! j"] pr2 [of "Suc a + j"] qj qja qa ji
      show "p_state (promises ?w2 (qs ! j)) = PENDING \<and>
        p_handlers (promises ?w2 (qs ! j)) =
          [then_handler (Fn (AllThen a c j)) FULFILLED (Suc a + j),
           then_handler (Fn (Reject a)) REJECTED (Suc a + j)] \<and>
        promises ?w2 (Suc a + j) = \<lparr>p_state = PENDING, p_value = Undefined, p_handlers = []\<rparr>"
        by auto
    qed
  qed
  from cs e1 loop inv2 show ?thesis by blast
qed

lemma all_inv_reject_step:
  assumes node: "process h = ProcessObject True"
    and dist: "distinct qs" and below: "\<forall>q\<in>set qs. q < a"
    and inv: "all_inv a c qs m k rj D w"
    and i: "i < length qs" "i \<notin> D"
  shows "\<exists>w1 w2. changeState h (qs ! i) REJECTED v w = (None, w1) \<and>
           run_loop (Suc (Suc 0)) h env w1 = Some (None, w2) \<and>
           all_inv a c qs m k (case rj of None \<Rightarrow> Some v | Some r \<Rightarrow> Some r) (insert i D) w2"
proof -
  let ?q = "qs ! i" and ?d = "Suc a + i"
  let ?T = "Task ?q (then_handler (Fn (AllThen a c i)) FULFILLED ?d)"
  let ?T' = "Task ?q (then_handler (Fn (Reject a)) REJECTED ?d)"
  have qa: "?q < a" using below i by simp
  from inv i have qpend: "p_state (promises w ?q) = PENDING"
    and qh: "p_handlers (promises w ?q) =
       [then_handler (Fn (AllThen a c i)) FULFILLED ?d, then_handler (Fn (Reject a)) REJECTED ?d]"
    and dfresh: "promises w ?d = \<lparr>p_state = PENDING, p_value = Undefined, p_handlers = []\<rparr>"
    and ah: "p_handlers (promises w a) = []" and quiet: "deferred w = []"
    by (simp_all add: all_inv_def)
  obtain e1 w1 where cs: "changeState h ?q REJECTED v w = (e1, w1)"
    by (cases "changeState h ?q REJECTED v w")
  note o1 = changeState_node [OF node qpend _ cs]
  have e1: "e1 = None" using o1 [of ?q] by simp
  have dq1: "deferred w1 = [(NextTick, ?T), (NextTick, ?T')]" using o1 [of ?q] quiet qh by simp
  let ?wa = "w1\<lparr>deferred := [(NextTick, ?T')]\<rparr>"
  let ?wc = "w1\<lparr>deferred := []\<rparr>"
  have "p_state (promises ?wa ?q) = REJECTED" using o1 [of ?q] by simp
  then have t1: "run_task h env ?T ?wa = (None, ?wa)" by (simp add: run_task_mismatch)
  have dqa: "deferred ?wa = [(NextTick, ?T')]" by simp
  obtain e2 w2 where t2: "run_task h env ?T' ?wc = (e2, w2)" by (cases "run_task h env ?T' ?wc")
  have pc: "p_state (promises ?wc ?q) = REJECTED" using o1 [of ?q] by simp
  have ahc: "p_handlers (promises ?wc a) = []" using o1 [of a] qa ah by simp
  have dc: "p_state (promises ?wc ?d) = PENDING" "p_handlers (promises ?wc ?d) = []"
    using o1 [of ?d] qa dfresh by simp_all
  have ad: "a \<noteq> ?d" by simp
  note o2 = run_task_settler_node [OF node pc _ ahc dc ad t2]
  have e2: "e2 = None" using o2 [of a] by simp
  have dq2: "deferred w2 = []" using o2 [of a] by simp
  have "run_loop (Suc (Suc 0)) h env w1 = run_loop (Suc 0) h env ?wa"
    using run_loop_step [OF dq1 t1] .
  also have "\<dots> = run_loop 0 h env w2" using run_loop_step [OF dqa] t2 e2 by simp
  also have "\<dots> = Some (None, w2)" using dq2 by (rule run_loop_quiescent)
  finally have loop: "run_loop (Suc (Suc 0)) h env w1 = Some (None, w2)" .
  have kn: "k < length qs" using all_inv_room [OF inv i] .
  from inv have D: "D \<subseteq> {..<length qs}" and kD: "k \<le> card D" by (simp_all add: all_inv_def)
  have fin: "finite D" using D by (meson finite_lessThan finite_subset)
  have c2: "ctxs w2 = ctxs w" using o2 [of a] o1 [of a] by simp
  have pr2: "\<And>x. promises w2 x =
       (if x = a \<and> p_state (promises w a) = PENDING
        then \<lparr>p_state = REJECTED, p_value = v, p_handlers = []\<rparr>
        else if x = ?d then \<lparr>p_state = FULFILLED, p_value = Undefined, p_handlers = []\<rparr>
        else if x = ?q then \<lparr>p_state = REJECTED, p_value = v, p_handlers = []\<rparr>
        else promises w x)"
  proof -
    fix x
    show "promises w2 x =
       (if x = a \<and> p_state (promises w a) = PENDING
        then \<lparr>p_state = REJECTED, p_value = v, p_handlers = []\<rparr>
        else if x = ?d then \<lparr>p_state = FULFILLED, p_value = Undefined, p_handlers = []\<rparr>
        else if x = ?q then \<lparr>p_state = REJECTED, p_value = v, p_handlers = []\<rparr>
        else promises w x)"
      using o2 [of x] o1 [of x] o1 [of a] o1 [of ?q] qa by auto
  qed
  have inv2: "all_inv a c qs m k (case rj of None \<Rightarrow> Some v | Some r \<Rightarrow> Some r) (insert i D) w2"
    unfolding all_inv_def
  proof (intro conjI)
    show "deferred w2 = []" by (rule dq2)
    show "count (ctxs w2 c) = length qs" "fulfilledCount (ctxs w2 c) = k"
      "length (results (ctxs w2 c)) \<le> length qs"
      "\<forall>j<length (results (ctxs w2 c)). results (ctxs w2 c) ! j = m j"
      "\<forall>j. m j \<noteq> None \<longrightarrow> j < length (results (ctxs w2 c))"
      using inv c2 by (simp_all add: all_inv_def)
    show "p_handlers (promises w2 a) = []" using pr2 [of a] ah qa by auto
    show "case (case rj of None \<Rightarrow> Some v | Some r \<Rightarrow> Some r) of
        Some r \<Rightarrow> p_state (promises w2 a) = REJECTED \<and> p_value (promises w2 a) = r
      | None \<Rightarrow>
          if k = length qs
          then p_state (promises w2 a) = FULFILLED \<and> p_value (promises w2 a) = ArrRef c
          else p_state (promises w2 a) = PENDING"
      using inv kn pr2 [of a] qa by (auto simp: all_inv_def split: option.splits)
    show "insert i D \<subseteq> {..<length qs}" using D i by simp
    show "k \<le> card (insert i D)" using kD fin i by simp
    show "\<forall>j<length qs. j \<notin> insert i D \<longrightarrow>
        p_state (promises w2 (qs ! j)) = PENDING \<and>
        p_handlers (promises w2 (qs ! j)) =
          [then_handler (Fn (AllThen a c j)) FULFILLED (Suc a + j),
           then_handler (Fn (Reject a)) REJECTED (Suc a + j)] \<and>
        promises w2 (Suc a + j) = \<lparr>p_state = PENDING, p_value = Undefined, p_handlers = []\<rparr>"
    proof (intro allI impI)
      fix j assume j: "j < length qs" "j \<notin> insert i D"
      then have ji: "j \<noteq> i" "j \<notin> D" by simp_all
      have qj: "qs ! j \<noteq> ?q" using dist j(1) i(1) ji(1) by (simp add: nth_eq_iff_index_eq)
      have qja: "qs ! j < a" using below j(1) by simp
      from inv j(1) ji(2) have old: "p_state (promises w (qs ! j)) = PENDING \<and>
        p_handlers (promises w (qs ! j)) =
          [then_handler (Fn (AllThen a c j)) FULFILLED (Suc a + j),
           then_handler (Fn (Reject a)) REJECTED (Suc a + j)] \<and>
        promises w (Suc a + j) = \<lparr>p_state = PENDING, p_value = Undefined, p_handlers = []\<rparr>"
        by (simp add: all_inv_def)
      with pr2 [of "qs ! j"] pr2 [of "Suc a + j"] qj qja qa ji
      show "p_state (promises w2 (qs ! j)) = PENDING \<and>
        p_handlers (promises w2 (qs ! j)) =
          [then_handler (Fn (AllThen a c j)) FULFILLED (Suc a + j),
           then_handler (Fn (Reject a)) REJECTED (Suc a + j)] \<and>
        promises w2 (Suc a + j) = \<lparr>p_state = PENDING, p_value = Undefined, p_handlers = []\<rparr>"
        by auto
    qed
  qed
  from cs e1 loop inv2 show ?thesis by blast
qed

lemma fulfilled_values_absent:
  "j \<notin> fst ` set evs \<Longrightarrow> fulfilled_values evs j = None"
  by (induction evs) auto

lemma fulfilled_values_present:
  "(j, FULFILLED, v) \<in> set evs \<Longrightarrow> fulfilled_values evs j \<noteq> None"
  by (induction evs) auto

lemma no_reason_all_fulfilled:
  "first_reason evs = None \<Longrightarrow> \<forall>(i, s, v)\<in>set evs. s = FULFILLED \<or> s = REJECTED \<Longrightarrow>
   fulfilments evs = length evs \<and> (\<forall>(i, s, v)\<in>set evs. s = FULFILLED)"
  by (induction evs) (auto split: if_splits)

lemma settle_inputs_inv:
  assumes node: "process h = ProcessObject True"
    and dist: "distinct qs" and below: "\<forall>q\<in>set qs. q < a"
  shows "all_inv a c qs m k rj D w \<Longrightarrow> distinct (map fst evs) \<Longrightarrow>
     \<forall>(i, s, v)\<in>set evs. i < length qs \<and> i \<notin> D \<and> (s = FULFILLED \<or> s = REJECTED) \<Longrightarrow>
     \<exists>w2. settle_inputs h env qs evs w = Some w2 \<and>
          all_inv a c qs
            (\<lambda>j. case fulfilled_values evs j of Some x \<Rightarrow> Some x | None \<Rightarrow> m j)
            (k + fulfilments evs)
            (case rj of Some r \<Rightarrow> Some r | None \<Rightarrow> first_reason evs)
            (D \<union> fst ` set evs) w2"
proof (induction evs arbitrary: m k rj D w)
  case Nil
  have "(case rj of Some r \<Rightarrow> Some r | None \<Rightarrow> first_reason []) = rj" by (cases rj) simp_all
  with Nil show ?case by simp
next
  case (Cons ev evs)
  obtain i s v where ev: "ev = (i, s, v)" by (cases ev)
  from Cons.prems(3) ev have i: "i < length qs" "i \<notin> D" and s: "s = FULFILLED \<or> s = REJECTED"
    by auto
  from Cons.prems(2) ev have inot: "i \<notin> fst ` set evs" and d: "distinct (map fst evs)" by auto
  have rest: "\<forall>(j, s, v)\<in>set evs. j < length qs \<and> j \<notin> insert i D \<and> (s = FULFILLED \<or> s = REJECTED)"
    using Cons.prems(3) inot by force
  from s show ?case
  proof
    assume f: "s = FULFILLED"
    from all_inv_fulfil_step [OF node dist below Cons.prems(1) i, of v env]
    obtain w1 w2 where cs: "changeState h (qs ! i) FULFILLED v w = (None, w1)"
      and loop: "run_loop (Suc (Suc 0)) h env w1 = Some (None, w2)"
      and inv2: "all_inv a c qs (m(i \<mapsto> v)) (Suc k) rj (insert i D) w2"
      by blast
    from Cons.IH [OF inv2 d rest]
    obtain w3 where s3: "settle_inputs h env qs evs w2 = Some w3"
      and inv3: "all_inv a c qs
            (\<lambda>j. case fulfilled_values evs j of Some x \<Rightarrow> Some x | None \<Rightarrow> (m(i \<mapsto> v)) j)
            (Suc k + fulfilments evs)
            (case rj of Some r \<Rightarrow> Some r | None \<Rightarrow> first_reason evs)
            (insert i D \<union> fst ` set evs) w3"
      by blast
    have m: "(\<lambda>j. case fulfilled_values evs j of Some x \<Rightarrow> Some x | None \<Rightarrow> (m(i \<mapsto> v)) j) =
             (\<lambda>j. case fulfilled_values (ev # evs) j of Some x \<Rightarrow> Some x | None \<Rightarrow> m j)"
      using fulfilled_values_absent [OF inot] ev f by (auto simp: fun_eq_iff split: option.splits)
    have rj: "(case rj of Some r \<Rightarrow> Some r | None \<Rightarrow> first_reason evs) =
              (case rj of Some r \<Rightarrow> Some r | None \<Rightarrow> first_reason (ev # evs))"
      using ev f by (cases rj) simp_all
    have "settle_inputs h env qs (ev # evs) w = Some w3" using ev f cs loop s3 by simp
    moreover have "all_inv a c qs
            (\<lambda>j. case fulfilled_values (ev # evs) j of Some x \<Rightarrow> Some x | None \<Rightarrow> m j)
            (k + fulfilments (ev # evs))
            (case rj of Some r \<Rightarrow> Some r | None \<Rightarrow> first_reason (ev # evs))
            (D \<union> fst ` set (ev # evs)) w3"
      using inv3 ev f unfolding m rj by simp
    ultimately show ?thesis by blast
  next
    assume f: "s = REJECTED"
    from all_inv_reject_step [OF node dist below Cons.prems(1) i, of v env]
    obtain w1 w2 where cs: "changeState h (qs ! i) REJECTED v w = (None, w1)"
      and loop: "run_loop (Suc (Suc 0)) h env w1 = Some (None, w2)"
      and inv2: "all_inv a c qs m k (case rj of None \<Rightarrow> Some v | Some r \<Rightarrow> Some r) (insert i D) w2"
      by blast
    from Cons.IH [OF inv2 d rest]
    obtain w3 where s3: "settle_inputs h env qs evs w2 = Some w3"
      and inv3: "all_inv a c qs
            (\<lambda>j. case fulfilled_values evs j of Some x \<Rightarrow> Some x | None \<Rightarrow> m j)
            (k + fulfilments evs)
            (case (case rj of None \<Rightarrow> Some v | Some r \<Rightarrow> Some r) of Some r \<Rightarrow> Some r
               | None \<Rightarrow> first_reason evs)
            (insert i D \<union> fst ` set evs) w3"
      by blast
    have m: "(\<lambda>j. case fulfilled_values evs j of Some x \<Rightarrow> Some x | None \<Rightarrow> m j) =
             (\<lambda>j. case fulfilled_values (ev # evs) j of Some x \<Rightarrow> Some x | None \<Rightarrow> m j)"
      using ev f by (auto simp: fun_eq_iff)
    have rj: "(case (case rj of None \<Rightarrow> Some v | Some r \<Rightarrow> Some r) of Some r \<Rightarrow> Some r
               | None \<Rightarrow> first_reason evs) =
              (case rj of Some r \<Rightarrow> Some r | None \<Rightarrow> first_reason (ev # evs))"
      using ev f by (cases rj) simp_all
    have "settle_inputs h env qs (ev # evs) w = Some w3" using ev f cs loop s3 by simp
    moreover have "all_inv a c qs
            (\<lambda>j. case fulfilled_values (ev # evs) j of Some x \<Rightarrow> Some x | None \<Rightarrow> m j)
            (k + fulfilments (ev # evs))
            (case rj of Some r \<Rightarrow> Some r | None \<Rightarrow> first_reason (ev # evs))
            (D \<union> fst ` set (ev # evs)) w3"
      using inv3 ev f unfolding m rj by simp
    ultimately show ?thesis by blast
  qed
qed

lemma all_establishes_inv:
  assumes dist: "distinct qs"
    and pend: "\<forall>q\<in>set qs. q < nextId w \<and> p_state (promises w q) = PENDING \<and>
                 p_handlers (promises w q) = []"
    and quiet: "deferred w = []"
    and call: "MyPromise_all h env (map PromiseRef qs) w = (r, w1)"
  shows "r = Inr (nextId w) \<and> all_inv (nextId w) (nextCtx w) qs (\<lambda>j. None) 0 None {} w1"
proof (cases "qs = []")
  case True
  with call quiet all_empty [of h env w r w1] show ?thesis
    by (auto simp: all_inv_def MyPromise_all_def new_MyPromise_def Let_def p_resolve_def
          changeState_no_handlers)
next
  case False
  have pend': "\<forall>q\<in>set qs. q < nextId w \<and> p_state (promises w q) = PENDING" using pend by simp
  note o = all_pending [OF dist pend' False call]
  have "all_inv (nextId w) (nextCtx w) qs (\<lambda>j. None) 0 None {} w1"
    unfolding all_inv_def
  proof (intro conjI)
    show "\<forall>i<length qs. i \<notin> {} \<longrightarrow>
        p_state (promises w1 (qs ! i)) = PENDING \<and>
        p_handlers (promises w1 (qs ! i)) =
          [then_handler (Fn (AllThen (nextId w) (nextCtx w) i)) FULFILLED (Suc (nextId w) + i),
           then_handler (Fn (Reject (nextId w))) REJECTED (Suc (nextId w) + i)] \<and>
        promises w1 (Suc (nextId w) + i) = \<lparr>p_state = PENDING, p_value = Undefined, p_handlers = []\<rparr>"
    proof (intro allI impI)
      fix i assume i: "i < length qs"
      then have "qs ! i \<in> set qs" by simp
      with pend have "p_state (promises w (qs ! i)) = PENDING" "p_handlers (promises w (qs ! i)) = []"
        by simp_all
      with o i show "p_state (promises w1 (qs ! i)) = PENDING \<and>
        p_handlers (promises w1 (qs ! i)) =
          [then_handler (Fn (AllThen (nextId w) (nextCtx w) i)) FULFILLED (Suc (nextId w) + i),
           then_handler (Fn (Reject (nextId w))) REJECTED (Suc (nextId w) + i)] \<and>
        promises w1 (Suc (nextId w) + i) = \<lparr>p_state = PENDING, p_value = Undefined, p_handlers = []\<rparr>"
        by simp
    qed
  qed (use o quiet False in simp_all)
  with o show ?thesis by simp
qed

section \<open>Facts about adoption\<close>

lemma run_task_result_adopted:
  assumes "p_state (promises w p) = state hdl" and "is_function (executor hdl)"
    and "call_value h env (executor hdl) (p_value (promises w p)) w = (Inr result, w1)"
    and "isPromise result"
  shows "run_task h env (Task p hdl) w =
     (case discard (call_then h env result (resolve hdl) (reject hdl) w1) of
        (None, w2) \<Rightarrow> (None, w2)
      | (Some error, w2) \<Rightarrow> discard (apply_fn h env (reject hdl) error w2))"
  using assms by (simp add: run_task_def)

lemma run_task_result_plain:
  assumes "p_state (promises w p) = state hdl" and "is_function (executor hdl)"
    and "call_value h env (executor hdl) (p_value (promises w p)) w = (Inr result, w1)"
    and "\<not> isPromise result"
  shows "run_task h env (Task p hdl) w =
     (case discard (apply_fn h env (resolve hdl) result w1) of
        (None, w2) \<Rightarrow> (None, w2)
      | (Some error, w2) \<Rightarrow> discard (apply_fn h env (reject hdl) error w2))"
  using assms by (simp add: run_task_def)

lemma capability_keeps_settled:
  assumes "p_state (promises w d) \<noteq> PENDING"
    and "f = Resolve x \<or> f = Reject x"
    and "apply_fn h env f v w = (r, w')"
  shows "p_state (promises w' d) = p_state (promises w d) \<and>
         p_value (promises w' d) = p_value (promises w d)"
proof -
  obtain s where s: "s = (if f = Resolve x then FULFILLED else REJECTED)" by simp
  obtain e where cs: "changeState h x s v w = (e, w')"
    using assms(2,3) s
    by (cases "changeState h x s v w")
       (auto simp: apply_fn_def completion_def p_resolve_def p_reject_def split: option.splits)
  show ?thesis
  proof (cases "x = d")
    case True
    with assms(1) changeState_settled [of w d h s v] cs show ?thesis by simp
  next
    case False
    with changeState_frame [OF cs, of d] show ?thesis by simp
  qed
qed

text \<open>The callback of a handler that \<^verbatim>\<open>q.then(resolve, reject)\<close> registered, on any host.\<close>

lemma adoption_handler_fires:
  assumes st: "p_state (promises w q) = st" "st \<noteq> PENDING"
    and d: "p_state (promises w d) = PENDING"
    and run: "run_task h env (Task q (then_handler (Fn (if st = FULFILLED then Resolve d else Reject d)) st d2)) w = (e, w')"
  shows "p_state (promises w' d) = st \<and> p_value (promises w' d) = p_value (promises w q)"
proof -
  let ?f = "if st = FULFILLED then Resolve d else Reject d"
  let ?v = "p_value (promises w q)"
  let ?hdl = "then_handler (Fn ?f) st d2"
  obtain r1 w1 where a1: "apply_fn h env ?f ?v w = (r1, w1)" by (cases "apply_fn h env ?f ?v w")
  note o1 = capability_effect [OF d a1 st(2), of d]
  then have set1: "p_state (promises w1 d) \<noteq> PENDING" using st(2) by simp
  have keep: "p_state (promises wx d) = st \<and> p_value (promises wx d) = ?v"
    if "apply_fn h env g u w1 = (rr, wx)" and "g = Resolve d2 \<or> g = Reject d2" for g u rr wx
    using capability_keeps_settled [OF set1 that(2) that(1)] o1 by simp
  show ?thesis
  proof (cases r1)
    case (Inl err)
    obtain r3 w3 where a3: "apply_fn h env (Reject d2) err w1 = (r3, w3)"
      by (cases "apply_fn h env (Reject d2) err w1")
    have "run_task h env (Task q ?hdl) w = discard (r3, w3)"
      using st a1 Inl a3 by (simp add: run_task_def call_value_def)
    with run have "w' = w3" by (cases r3) (simp_all add: discard_def)
    with keep [OF a3] show ?thesis by simp
  next
    case (Inr u)
    have cv: "call_value h env (executor ?hdl) ?v w = (Inr u, w1)"
      using a1 Inr by (simp add: call_value_def)
    have u: "u = Undefined"
      using a1 Inr by (auto simp: apply_fn_def completion_def split: if_splits prod.splits option.splits)
    obtain r2 w2 where a2: "apply_fn h env (Resolve d2) u w1 = (r2, w2)"
      by (cases "apply_fn h env (Resolve d2) u w1")
    note k2 = keep [OF a2]
    have set2: "p_state (promises w2 d) \<noteq> PENDING" using k2 st(2) by simp
    show ?thesis
    proof (cases r2)
      case R: (Inr u2)
      have "run_task h env (Task q ?hdl) w = (None, w2)"
        using run_task_result_plain [of w q ?hdl h env u w1] st cv u a2 R
        by (simp add: isPromise_def discard_def)
      with run k2 show ?thesis by simp
    next
      case L: (Inl err)
      obtain r3 w3 where a3: "apply_fn h env (Reject d2) err w2 = (r3, w3)"
        by (cases "apply_fn h env (Reject d2) err w2")
      have "run_task h env (Task q ?hdl) w = discard (r3, w3)"
        using run_task_result_plain [of w q ?hdl h env u w1] st cv u a2 L a3
        by (simp add: isPromise_def discard_def)
      with run have "w' = w3" by (cases r3) (simp_all add: discard_def)
      moreover have "p_state (promises w3 d) = p_state (promises w2 d) \<and>
         p_value (promises w3 d) = p_value (promises w2 d)"
        using capability_keeps_settled [OF set2 _ a3] by simp
      ultimately show ?thesis using k2 by simp
    qed
  qed
qed


lemma adopt_pending_inner:
  assumes st: "p_state (promises w p) = st" and fn: "is_function f"
    and cv: "call_value h env f (p_value (promises w p)) w = (Inr (PromiseRef q), w1)"
    and q: "p_state (promises w1 q) = PENDING" "q \<noteq> nextId w1"
    and run: "run_task h env (Task p (then_handler f st d)) w = (e, w')"
  shows "e = None \<and>
     promises w' x =
       (if x = nextId w1 then \<lparr>p_state = PENDING, p_value = Undefined, p_handlers = []\<rparr>
        else if x = q then (promises w1 q)\<lparr>p_handlers := p_handlers (promises w1 q) @
               [then_handler (Fn (Resolve d)) FULFILLED (nextId w1),
                then_handler (Fn (Reject d)) REJECTED (nextId w1)]\<rparr>
        else promises w1 x) \<and>
     deferred w' = deferred w1 \<and> nextId w' = Suc (nextId w1) \<and> ctxs w' = ctxs w1 \<and> nextCtx w' = nextCtx w1"
proof -
  obtain r wt where t: "MyPromise_then h q (Fn (Resolve d)) (Fn (Reject d)) w1 = (r, wt)"
    by (cases "MyPromise_then h q (Fn (Resolve d)) (Fn (Reject d)) w1")
  note o = then_pending [OF q t]
  have r: "r = Inr (nextId w1)" using o [of q] by simp
  have "run_task h env (Task p (then_handler f st d)) w = (None, wt)"
    using run_task_result_adopted [of w p "then_handler f st d" h env "PromiseRef q" w1] st fn cv t r
    by (simp add: isPromise_def call_then_def discard_def)
  with run have "e = None" "w' = wt" by simp_all
  with o [of x] show ?thesis by simp
qed

lemma adopt_settled_inner_node:
  assumes node: "process h = ProcessObject True"
    and st: "p_state (promises w p) = st" and fn: "is_function f"
    and cv: "call_value h env f (p_value (promises w p)) w = (Inr (PromiseRef q), w1)"
    and q: "p_state (promises w1 q) \<noteq> PENDING" "q \<noteq> nextId w1"
    and run: "run_task h env (Task p (then_handler f st d)) w = (e, w')"
  shows "e = None \<and>
     promises w' x =
       (if x = nextId w1 then \<lparr>p_state = PENDING, p_value = Undefined, p_handlers = []\<rparr>
        else if x = q then (promises w1 q)\<lparr>p_handlers := []\<rparr>
        else promises w1 x) \<and>
     deferred w' = deferred w1 @ map (\<lambda>x. (NextTick, Task q x)) (p_handlers (promises w1 q) @
               [then_handler (Fn (Resolve d)) FULFILLED (nextId w1),
                then_handler (Fn (Reject d)) REJECTED (nextId w1)]) \<and>
     nextId w' = Suc (nextId w1) \<and> ctxs w' = ctxs w1 \<and> nextCtx w' = nextCtx w1"
proof -
  obtain r wt where t: "MyPromise_then h q (Fn (Resolve d)) (Fn (Reject d)) w1 = (r, wt)"
    by (cases "MyPromise_then h q (Fn (Resolve d)) (Fn (Reject d)) w1")
  note o = then_settled_node [OF node q t]
  have r: "r = Inr (nextId w1)" using o [of q] by simp
  have "run_task h env (Task p (then_handler f st d)) w = (None, wt)"
    using run_task_result_adopted [of w p "then_handler f st d" h env "PromiseRef q" w1] st fn cv t r
    by (simp add: isPromise_def call_then_def discard_def)
  with run have "e = None" "w' = wt" by simp_all
  with o [of x] show ?thesis by simp
qed

lemma run_script_keeps_settled:
  "p_state (promises w d) \<noteq> PENDING \<Longrightarrow>
   run_script h env script (Resolve d) (Reject d) w = (r, w') \<Longrightarrow> promises w' = promises w"
proof (induction script arbitrary: w)
  case Nil
  then show ?case by simp
next
  case (Cons c script)
  show ?case
  proof (cases c)
    case (CallOnFulfilled v)
    with Cons.prems capability_settled [OF Cons.prems(1), of h env v]
    have "run_script h env script (Resolve d) (Reject d) w = (r, w')" by simp
    with Cons.IH [OF Cons.prems(1)] show ?thesis by simp
  next
    case (CallOnRejected v)
    with Cons.prems capability_settled [OF Cons.prems(1), of h env v]
    have "run_script h env script (Resolve d) (Reject d) w = (r, w')" by simp
    with Cons.IH [OF Cons.prems(1)] show ?thesis by simp
  next
    case (LaterOnFulfilled v)
    let ?w = "w\<lparr>deferred := deferred w @ [(SetTimeout, Call (Resolve d) v)]\<rparr>"
    have a: "p_state (promises ?w d) \<noteq> PENDING" using Cons.prems(1) by simp
    from LaterOnFulfilled Cons.prems have "run_script h env script (Resolve d) (Reject d) ?w = (r, w')" by simp
    with Cons.IH [OF a] show ?thesis by simp
  next
    case (LaterOnRejected v)
    let ?w = "w\<lparr>deferred := deferred w @ [(SetTimeout, Call (Reject d) v)]\<rparr>"
    have a: "p_state (promises ?w d) \<noteq> PENDING" using Cons.prems(1) by simp
    from LaterOnRejected Cons.prems have "run_script h env script (Resolve d) (Reject d) ?w = (r, w')" by simp
    with Cons.IH [OF a] show ?thesis by simp
  next
    case (ThrowInThen v)
    with Cons.prems show ?thesis by simp
  qed
qed

text \<open>What is left of the callback once the continuation returned a value \<^verbatim>\<open>isPromise\<close> accepts.\<close>

lemma after_call_then_keeps_settled:
  assumes st: "p_state (promises w p) = st" and fn: "is_function f"
    and cv: "call_value h env f (p_value (promises w p)) w = (Inr result, w1)"
    and ip: "isPromise result"
    and ct: "call_then h env result (Resolve d) (Reject d) w1 = (r2, w2)"
    and d: "p_state (promises w2 d) \<noteq> PENDING"
    and run: "run_task h env (Task p (then_handler f st d)) w = (e, w')"
  shows "promises w' d = promises w2 d"
proof (cases r2)
  case (Inr u)
  have "run_task h env (Task p (then_handler f st d)) w = (None, w2)"
    using run_task_result_adopted [of w p "then_handler f st d" h env result w1] st fn cv ip ct Inr
    by (simp add: discard_def)
  with run show ?thesis by simp
next
  case (Inl err)
  have "run_task h env (Task p (then_handler f st d)) w = discard (apply_fn h env (Reject d) err w2)"
    using run_task_result_adopted [of w p "then_handler f st d" h env result w1] st fn cv ip ct Inl
    by (simp add: discard_def)
  with run capability_settled [OF d, of h env err] show ?thesis by (simp add: discard_def)
qed

lemma thenable_is_adopted:
  assumes st: "p_state (promises w p) = st" and fn: "is_function f"
    and cv: "call_value h env f (p_value (promises w p)) w = (Inr (Thenable (c # rest)), w1)"
    and c: "c = CallOnFulfilled x \<and> s = FULFILLED \<or> c = CallOnRejected x \<and> s = REJECTED"
    and d: "p_state (promises w1 d) = PENDING"
    and run: "run_task h env (Task p (then_handler f st d)) w = (e, w')"
  shows "p_state (promises w' d) = s \<and> p_value (promises w' d) = x"
proof -
  have s: "s \<noteq> PENDING" using c by auto
  let ?f = "if s = FULFILLED then Resolve d else Reject d"
  obtain r1 wa where a1: "apply_fn h env ?f x w1 = (r1, wa)" by (cases "apply_fn h env ?f x w1")
  note o1 = capability_effect [OF d a1 s, of d]
  then have set1: "p_state (promises wa d) \<noteq> PENDING" using s by simp
  obtain r2 w2 where rs: "run_script h env (c # rest) (Resolve d) (Reject d) w1 = (r2, w2)"
    by (cases "run_script h env (c # rest) (Resolve d) (Reject d) w1")
  have scr: "run_script h env (c # rest) (Resolve d) (Reject d) w1 =
     (case r1 of Inl err \<Rightarrow> (Inl err, wa) | Inr u \<Rightarrow> run_script h env rest (Resolve d) (Reject d) wa)"
    using c a1 by (auto split: sum.splits)
  have w2: "promises w2 = promises wa"
  proof (cases r1)
    case (Inl err)
    with scr rs show ?thesis by simp
  next
    case (Inr u)
    with scr rs have "run_script h env rest (Resolve d) (Reject d) wa = (r2, w2)" by simp
    from run_script_keeps_settled [OF set1 this] show ?thesis .
  qed
  have ct: "call_then h env (Thenable (c # rest)) (Resolve d) (Reject d) w1 = (r2, w2)"
    using rs by (simp add: call_then_def)
  have d2: "p_state (promises w2 d) \<noteq> PENDING" using w2 set1 by simp
  have ip: "isPromise (Thenable (c # rest))" by (simp add: isPromise_def)
  from after_call_then_keeps_settled [OF st fn cv ip ct d2 run] w2 o1 show ?thesis by simp
qed

lemma thenable_calls_back_later:
  assumes st: "p_state (promises w p) = st" and fn: "is_function f"
    and cv: "call_value h env f (p_value (promises w p)) w = (Inr (Thenable [c]), w1)"
    and c: "c = LaterOnFulfilled x \<and> s = FULFILLED \<or> c = LaterOnRejected x \<and> s = REJECTED"
  shows "run_task h env (Task p (then_handler f st d)) w =
     (None, w1\<lparr>deferred := deferred w1 @
        [(SetTimeout, Call (if s = FULFILLED then Resolve d else Reject d) x)]\<rparr>)"
  using run_task_result_adopted [of w p "then_handler f st d" h env "Thenable [c]" w1] st fn cv c
  by (auto simp: isPromise_def call_then_def discard_def)

lemma later_call_settles:
  assumes "p_state (promises w d) = PENDING" and "s \<noteq> PENDING"
    and "run_task h env (Call (if s = FULFILLED then Resolve d else Reject d) x) w = (e, w')"
  shows "p_state (promises w' d) = s \<and> p_value (promises w' d) = x"
proof -
  let ?f = "if s = FULFILLED then Resolve d else Reject d"
  obtain r1 wa where a1: "apply_fn h env ?f x w = (r1, wa)" by (cases "apply_fn h env ?f x w")
  from assms(3) a1 have "w' = wa" by (cases r1) (simp_all add: run_task_def discard_def)
  with capability_effect [OF assms(1) a1 assms(2), of d] show ?thesis by simp
qed

lemma object_with_then_is_adopted:
  assumes st: "p_state (promises w p) = st" and fn: "is_function f"
    and cv: "call_value h env f (p_value (promises w p)) w = (Inr (Obj kvs), w1)"
    and t: "map_of kvs ''then'' = Some t" "is_function t"
    and calls: "call_value h env t (Fn (Resolve d)) w1 = apply_fn h env (Resolve d) x w1"
    and d: "p_state (promises w1 d) = PENDING"
    and run: "run_task h env (Task p (then_handler f st d)) w = (e, w')"
  shows "p_state (promises w' d) = FULFILLED \<and> p_value (promises w' d) = x"
proof -
  obtain r1 wa where a1: "apply_fn h env (if FULFILLED = FULFILLED then Resolve d else Reject d) x w1 = (r1, wa)"
    by (cases "apply_fn h env (Resolve d) x w1") simp
  have ne: "FULFILLED \<noteq> PENDING" by simp
  note o1 = capability_effect [OF d a1 ne, of d]
  have ct: "call_then h env (Obj kvs) (Resolve d) (Reject d) w1 = (r1, wa)"
    using t calls a1 by (simp add: call_then_def)
  have ip: "isPromise (Obj kvs)" using t by (simp add: isPromise_def)
  have d2: "p_state (promises wa d) \<noteq> PENDING" using o1 by simp
  from after_call_then_keeps_settled [OF st fn cv ip ct d2 run] o1 show ?thesis by simp
qed

lemma function_with_then_is_not_adopted:
  assumes st: "p_state (promises w p) = st" and fn: "is_function f"
    and cv: "call_value h env f (p_value (promises w p)) w = (Inr (FunctionWithThen g script), w1)"
    and d: "p_state (promises w1 d) = PENDING"
    and run: "run_task h env (Task p (then_handler f st d)) w = (e, w')"
  shows "p_state (promises w' d) = FULFILLED \<and> p_value (promises w' d) = FunctionWithThen g script"
proof -
  let ?v = "FunctionWithThen g script"
  obtain r1 wa where a1: "apply_fn h env (if FULFILLED = FULFILLED then Resolve d else Reject d) ?v w1 = (r1, wa)"
    by (cases "apply_fn h env (Resolve d) ?v w1") simp
  have ne: "FULFILLED \<noteq> PENDING" by simp
  note o1 = capability_effect [OF d a1 ne, of d]
  have d2: "p_state (promises wa d) \<noteq> PENDING" using o1 by simp
  have np: "\<not> isPromise ?v" by (simp add: isPromise_def)
  show ?thesis
  proof (cases r1)
    case (Inr u)
    have "run_task h env (Task p (then_handler f st d)) w = (None, wa)"
      using run_task_result_plain [of w p "then_handler f st d" h env ?v w1] st fn cv np a1 Inr
      by (simp add: discard_def)
    with run o1 show ?thesis by simp
  next
    case (Inl err)
    have "run_task h env (Task p (then_handler f st d)) w = discard (apply_fn h env (Reject d) err wa)"
      using run_task_result_plain [of w p "then_handler f st d" h env ?v w1] st fn cv np a1 Inl
      by (simp add: discard_def)
    with run capability_settled [OF d2, of h env err] o1 show ?thesis by (simp add: discard_def)
  qed
qed

lemma adopt_task_node:
  assumes node: "process h = ProcessObject True"
    and st: "p_state (promises w p) = state hdl"
    and ex: "executor hdl = Fn (User k)" "env k (p_value (promises w p)) w = (Inr (PromiseRef q), w)"
    and q: "q \<noteq> nextId w"
  shows "run_task h env (Task p hdl) w =
           (None, snd (MyPromise_then h q (Fn (resolve hdl)) (Fn (reject hdl)) w))"
proof -
  obtain r w1 where t: "MyPromise_then h q (Fn (resolve hdl)) (Fn (reject hdl)) w = (r, w1)"
    by (cases "MyPromise_then h q (Fn (resolve hdl)) (Fn (reject hdl)) w")
  have "r = Inr (nextId w)"
  proof (cases "p_state (promises w q) = PENDING")
    case True
    from then_pending [OF True q t] show ?thesis by simp
  next
    case False
    from then_settled_node [OF node False q t] show ?thesis by simp
  qed
  with t show ?thesis
    using run_task_function [OF st ex(1), of h env] ex(2)
    by (simp add: apply_fn_def isPromise_def call_then_def discard_def)
qed

lemma first_two_tasks_node:
  assumes node: "process h = ProcessObject True"
    and dq: "deferred w = [(NextTick, Task p (then_handler onF FULFILLED d)),
                           (NextTick, Task p (then_handler onR REJECTED d))]"
    and pst: "p_state (promises w p) = FULFILLED \<and> onF = Fn (User k) \<or>
              p_state (promises w p) = REJECTED \<and> onR = Fn (User k)"
    and ex: "\<And>wx. env k (p_value (promises w p)) wx = (Inr (PromiseRef q), wx)"
    and q: "q < nextId w" and p: "p < nextId w"
    and t: "MyPromise_then h q (Fn (Resolve d)) (Fn (Reject d)) (w\<lparr>deferred := []\<rparr>) = (r, wt)"
  shows "\<exists>w2. run_loop (Suc (Suc n)) h env w = run_loop n h env w2 \<and>
           (\<forall>x. promises w2 x = promises wt x) \<and> deferred w2 = deferred wt \<and>
           nextId w2 = nextId wt \<and> ctxs w2 = ctxs wt \<and> nextCtx w2 = nextCtx wt"
proof -
  let ?TF = "Task p (then_handler onF FULFILLED d)"
  let ?TR = "Task p (then_handler onR REJECTED d)"
  let ?wa = "w\<lparr>deferred := [(NextTick, ?TR)]\<rparr>"
  let ?wc = "w\<lparr>deferred := []\<rparr>"
  have qn: "q \<noteq> nextId w" and pn: "p \<noteq> nextId w" using q p by simp_all
  from pst show ?thesis
  proof
    assume f: "p_state (promises w p) = FULFILLED \<and> onF = Fn (User k)"
    obtain rx wx where tx: "MyPromise_then h q (Fn (Resolve d)) (Fn (Reject d)) ?wa = (rx, wx)"
      by (cases "MyPromise_then h q (Fn (Resolve d)) (Fn (Reject d)) ?wa")
    have t1: "run_task h env ?TF ?wa = (None, wx)"
      using adopt_task_node [OF node, of ?wa p "then_handler onF FULFILLED d" k env q] f ex qn tx
      by simp
    have obs: "deferred wx = (NextTick, ?TR) # deferred wt \<and> (\<forall>x. promises wx x = promises wt x) \<and>
        nextId wx = nextId wt \<and> ctxs wx = ctxs wt \<and> nextCtx wx = nextCtx wt"
    proof (cases "p_state (promises w q) = PENDING")
      case True
      then have a: "p_state (promises ?wa q) = PENDING" and c: "p_state (promises ?wc q) = PENDING"
        by simp_all
      have qa: "q \<noteq> nextId ?wa" "q \<noteq> nextId ?wc" using qn by simp_all
      from then_pending [OF a qa(1) tx] then_pending [OF c qa(2) t] show ?thesis by simp
    next
      case False
      then have a: "p_state (promises ?wa q) \<noteq> PENDING" and c: "p_state (promises ?wc q) \<noteq> PENDING"
        by simp_all
      have qa: "q \<noteq> nextId ?wa" "q \<noteq> nextId ?wc" using qn by simp_all
      from then_settled_node [OF node a qa(1) tx] then_settled_node [OF node c qa(2) t]
      show ?thesis by simp
    qed
    have "p_state (promises wx p) = FULFILLED"
    proof (cases "p_state (promises w q) = PENDING")
      case True
      then have a: "p_state (promises ?wa q) = PENDING" by simp
      have qa: "q \<noteq> nextId ?wa" using qn by simp
      from then_pending [OF a qa tx, of p] f pn show ?thesis by auto
    next
      case False
      then have a: "p_state (promises ?wa q) \<noteq> PENDING" by simp
      have qa: "q \<noteq> nextId ?wa" using qn by simp
      from then_settled_node [OF node a qa tx, of p] f pn show ?thesis by auto
    qed
    then have t2: "run_task h env ?TR (wx\<lparr>deferred := deferred wt\<rparr>) = (None, wx\<lparr>deferred := deferred wt\<rparr>)"
      by (simp add: run_task_mismatch)
    have "run_loop (Suc (Suc n)) h env w = run_loop (Suc n) h env wx"
      using run_loop_step [OF dq t1] .
    also have "\<dots> = run_loop n h env (wx\<lparr>deferred := deferred wt\<rparr>)"
      using run_loop_step [OF _ t2] obs by simp
    finally show ?thesis using obs by (intro exI [of _ "wx\<lparr>deferred := deferred wt\<rparr>"]) simp
  next
    assume f: "p_state (promises w p) = REJECTED \<and> onR = Fn (User k)"
    have t1: "run_task h env ?TF ?wa = (None, ?wa)"
      using f by (simp add: run_task_mismatch)
    have qa: "deferred ?wa = [(NextTick, ?TR)]" by simp
    have t2: "run_task h env ?TR (?wa\<lparr>deferred := []\<rparr>) = (None, wt)"
      using adopt_task_node [OF node, of ?wc p "then_handler onR REJECTED d" k env q] f ex qn t
      by simp
    have "run_loop (Suc (Suc n)) h env w = run_loop (Suc n) h env ?wa"
      using run_loop_step [OF dq t1] .
    also have "\<dots> = run_loop n h env wt"
      using run_loop_step [OF qa t2] .
    finally show ?thesis by (intro exI [of _ wt]) simp
  qed
qed

lemma then_adopts_settled_node:
  assumes node: "process h = ProcessObject True"
    and quiet: "deferred w = []" "p_handlers (promises w p) = []" "p_handlers (promises w q) = []"
    and alloc: "p < nextId w" "q < nextId w"
    and qst: "p_state (promises w q) \<noteq> PENDING"
    and pst: "p_state (promises w p) = FULFILLED \<and> onF = Fn (User k) \<or>
              p_state (promises w p) = REJECTED \<and> onR = Fn (User k)"
    and ex: "\<And>wx. env k (p_value (promises w p)) wx = (Inr (PromiseRef q), wx)"
    and call: "MyPromise_then h p onF onR w = (r, w1)"
  shows "r = Inr (nextId w) \<and> p_state (promises w1 (nextId w)) = PENDING \<and>
     (\<exists>w4. run_loop (Suc (Suc (Suc (Suc n)))) h env w1 = Some (None, w4) \<and>
           p_state (promises w4 (nextId w)) = p_state (promises w q) \<and>
           p_value (promises w4 (nextId w)) = p_value (promises w q) \<and>
           deferred w4 = [])"
proof -
  let ?d = "nextId w"
  let ?d2 = "Suc (nextId w)"
  have pd: "p \<noteq> ?d" and qd: "q \<noteq> ?d" using alloc by simp_all
  have stp: "p_state (promises w p) \<noteq> PENDING" using pst by auto
  note o1 = then_settled_node [OF node stp pd call]
  have r: "r = Inr ?d" using o1 [of p] by simp
  have dq1: "deferred w1 = [(NextTick, Task p (then_handler onF FULFILLED ?d)),
                            (NextTick, Task p (then_handler onR REJECTED ?d))]"
    using o1 [of p] quiet by simp
  have n1: "nextId w1 = ?d2" using o1 [of p] by simp
  have p1: "p_state (promises w1 p) = p_state (promises w p)" "p_value (promises w1 p) = p_value (promises w p)"
    using o1 [of p] pd by simp_all
  have q1: "p_state (promises w1 q) = p_state (promises w q)" "p_value (promises w1 q) = p_value (promises w q)"
    "p_handlers (promises w1 q) = []"
    using o1 [of q] qd quiet by auto
  have d1: "promises w1 ?d = \<lparr>p_state = PENDING, p_value = Undefined, p_handlers = []\<rparr>"
    using o1 [of ?d] by simp
  let ?wc = "w1\<lparr>deferred := []\<rparr>"
  obtain rt wt where t: "MyPromise_then h q (Fn (Resolve ?d)) (Fn (Reject ?d)) ?wc = (rt, wt)"
    by (cases "MyPromise_then h q (Fn (Resolve ?d)) (Fn (Reject ?d)) ?wc")
  have qst1: "p_state (promises ?wc q) \<noteq> PENDING" using q1 qst by simp
  have qn1: "q \<noteq> nextId ?wc" using n1 alloc by simp
  note ot = then_settled_node [OF node qst1 qn1 t]
  have pst1: "p_state (promises w1 p) = FULFILLED \<and> onF = Fn (User k) \<or>
              p_state (promises w1 p) = REJECTED \<and> onR = Fn (User k)"
    using pst p1 by simp
  have ex1: "\<And>wx. env k (p_value (promises w1 p)) wx = (Inr (PromiseRef q), wx)" using ex p1 by simp
  have al1: "q < nextId w1" "p < nextId w1" using n1 alloc by simp_all
  from first_two_tasks_node [where env = env and n = "Suc (Suc n)", OF node dq1 pst1 ex1 al1 t]
  obtain w2 where w2: "run_loop (Suc (Suc (Suc (Suc n)))) h env w1 = run_loop (Suc (Suc n)) h env w2"
    and o2: "\<forall>x. promises w2 x = promises wt x" "deferred w2 = deferred wt" "nextId w2 = nextId wt"
    by blast
  have dq2: "deferred w2 = [(NextTick, Task q (then_handler (Fn (Resolve ?d)) FULFILLED ?d2)),
                            (NextTick, Task q (then_handler (Fn (Reject ?d)) REJECTED ?d2))]"
    using o2 ot [of q] q1 n1 by simp
  have q2: "p_state (promises w2 q) \<noteq> PENDING" "p_state (promises w2 q) = p_state (promises w q)"
     "p_value (promises w2 q) = p_value (promises w q)"
    using o2 ot [of q] q1 qst n1 alloc by auto
  have d2: "p_state (promises w2 ?d) = PENDING" "p_handlers (promises w2 ?d) = []"
    using o2 ot [of ?d] d1 n1 qd by auto
  have d22: "p_state (promises w2 ?d2) = PENDING" "p_handlers (promises w2 ?d2) = []"
    using o2 ot [of ?d2] n1 by auto
  from adoption_pair_node [OF node dq2 q2(1) d2 d22, of n env]
  obtain w4 where "run_loop (Suc (Suc n)) h env w2 = Some (None, w4)"
    and "promises w4 ?d = \<lparr>p_state = p_state (promises w2 q), p_value = p_value (promises w2 q), p_handlers = []\<rparr>"
    and "deferred w4 = []"
    by auto
  with w2 q2 r d1 show ?thesis by simp
qed

lemma then_adopts_pending_node:
  assumes node: "process h = ProcessObject True"
    and quiet: "deferred w = []" "p_handlers (promises w p) = []" "p_handlers (promises w q) = []"
    and alloc: "p < nextId w" "q < nextId w"
    and qst: "p_state (promises w q) = PENDING" and s: "s \<noteq> PENDING"
    and pst: "p_state (promises w p) = FULFILLED \<and> onF = Fn (User k) \<or>
              p_state (promises w p) = REJECTED \<and> onR = Fn (User k)"
    and ex: "\<And>wx. env k (p_value (promises w p)) wx = (Inr (PromiseRef q), wx)"
    and call: "MyPromise_then h p onF onR w = (r, w1)"
  shows "r = Inr (nextId w) \<and>
     (\<exists>w2 w3 w4. run_loop (Suc (Suc n)) h env w1 = Some (None, w2) \<and>
           p_state (promises w2 (nextId w)) = PENDING \<and>
           changeState h q s v w2 = (None, w3) \<and>
           run_loop (Suc (Suc m)) h env w3 = Some (None, w4) \<and>
           p_state (promises w4 (nextId w)) = s \<and>
           p_value (promises w4 (nextId w)) = v \<and>
           deferred w4 = [])"
proof -
  let ?d = "nextId w"
  let ?d2 = "Suc (nextId w)"
  have pd: "p \<noteq> ?d" and qd: "q \<noteq> ?d" using alloc by simp_all
  have stp: "p_state (promises w p) \<noteq> PENDING" using pst by auto
  then have qp: "q \<noteq> p" using qst by auto
  note o1 = then_settled_node [OF node stp pd call]
  have r: "r = Inr ?d" using o1 [of p] by simp
  have dq1: "deferred w1 = [(NextTick, Task p (then_handler onF FULFILLED ?d)),
                            (NextTick, Task p (then_handler onR REJECTED ?d))]"
    using o1 [of p] quiet by simp
  have n1: "nextId w1 = ?d2" using o1 [of p] by simp
  have p1: "p_state (promises w1 p) = p_state (promises w p)" "p_value (promises w1 p) = p_value (promises w p)"
    using o1 [of p] pd by simp_all
  have q1: "p_state (promises w1 q) = PENDING" "p_handlers (promises w1 q) = []"
    using o1 [of q] qd qp quiet qst by auto
  have d1: "promises w1 ?d = \<lparr>p_state = PENDING, p_value = Undefined, p_handlers = []\<rparr>"
    using o1 [of ?d] by simp
  let ?wc = "w1\<lparr>deferred := []\<rparr>"
  obtain rt wt where t: "MyPromise_then h q (Fn (Resolve ?d)) (Fn (Reject ?d)) ?wc = (rt, wt)"
    by (cases "MyPromise_then h q (Fn (Resolve ?d)) (Fn (Reject ?d)) ?wc")
  have qst1: "p_state (promises ?wc q) = PENDING" using q1 by simp
  have qn1: "q \<noteq> nextId ?wc" using n1 alloc by simp
  note ot = then_pending [OF qst1 qn1 t]
  have pst1: "p_state (promises w1 p) = FULFILLED \<and> onF = Fn (User k) \<or>
              p_state (promises w1 p) = REJECTED \<and> onR = Fn (User k)"
    using pst p1 by simp
  have ex1: "\<And>wx. env k (p_value (promises w1 p)) wx = (Inr (PromiseRef q), wx)" using ex p1 by simp
  have al1: "q < nextId w1" "p < nextId w1" using n1 alloc by simp_all
  from first_two_tasks_node [where env = env and n = n, OF node dq1 pst1 ex1 al1 t]
  obtain w2 where w2: "run_loop (Suc (Suc n)) h env w1 = run_loop n h env w2"
    and o2: "\<forall>x. promises w2 x = promises wt x" "deferred w2 = deferred wt" "nextId w2 = nextId wt"
    by blast
  have dq2: "deferred w2 = []" using o2 ot [of q] by simp
  then have l2: "run_loop (Suc (Suc n)) h env w1 = Some (None, w2)"
    using w2 by (simp add: run_loop_quiescent)
  have q2: "p_state (promises w2 q) = PENDING"
    "p_handlers (promises w2 q) = [then_handler (Fn (Resolve ?d)) FULFILLED ?d2,
                                    then_handler (Fn (Reject ?d)) REJECTED ?d2]"
    using o2 ot [of q] q1 n1 alloc by auto
  have d2: "p_state (promises w2 ?d) = PENDING" "p_handlers (promises w2 ?d) = []"
    using o2 ot [of ?d] d1 n1 qd by auto
  have d22: "p_state (promises w2 ?d2) = PENDING" "p_handlers (promises w2 ?d2) = []"
    using o2 ot [of ?d2] n1 by auto
  obtain e3 w3 where cs: "changeState h q s v w2 = (e3, w3)" by (cases "changeState h q s v w2")
  note o3 = changeState_node [OF node q2(1) s cs]
  have e3: "e3 = None" using o3 [of q] by simp
  have dq3: "deferred w3 = [(NextTick, Task q (then_handler (Fn (Resolve ?d)) FULFILLED ?d2)),
                            (NextTick, Task q (then_handler (Fn (Reject ?d)) REJECTED ?d2))]"
    using o3 [of q] dq2 q2 by simp
  have q3: "p_state (promises w3 q) \<noteq> PENDING" "p_state (promises w3 q) = s" "p_value (promises w3 q) = v"
    using o3 [of q] s by simp_all
  have d3: "p_state (promises w3 ?d) = PENDING" "p_handlers (promises w3 ?d) = []"
    using o3 [of ?d] d2 qd by auto
  have d32: "p_state (promises w3 ?d2) = PENDING" "p_handlers (promises w3 ?d2) = []"
    using o3 [of ?d2] d22 alloc by auto
  from adoption_pair_node [OF node dq3 q3(1) d3 d32, of m env]
  obtain w4 where "run_loop (Suc (Suc m)) h env w3 = Some (None, w4)"
    and "promises w4 ?d = \<lparr>p_state = p_state (promises w3 q), p_value = p_value (promises w3 q), p_handlers = []\<rparr>"
    and "deferred w4 = []"
    by auto
  with l2 d2 cs e3 q3 r show ?thesis by auto
qed

section \<open>Facts about the example worlds\<close>

lemmas eval_defs =
  MyPromise_resolve_def MyPromise_reject_def new_MyPromise_def isPromise_def
  p_resolve_def p_reject_def changeState_def runHandlers_def empty_world_def Let_def
  runHandlers_loop.simps node_host_def MyPromise_then_def runOneHandler_def runMicroTask_def

lemma fulfilled_world_0:
  "p_state (promises fulfilled_world 0) = FULFILLED \<and> p_value (promises fulfilled_world 0) = Num 1"
  by (simp add: fulfilled_world_def MyPromise_resolve_def new_MyPromise_def isPromise_def
        p_resolve_def changeState_def runHandlers_def empty_world_def Let_def
        runHandlers_loop.simps)

lemma rejected_world_0:
  "p_state (promises rejected_world 0) = REJECTED \<and> p_value (promises rejected_world 0) = Str ''x'' \<and>
   p_handlers (promises rejected_world 0) = [] \<and> deferred rejected_world = [] \<and> nextId rejected_world = 1"
  by (simp add: rejected_world_def eval_defs)

lemma fulfilled_world_more:
  "p_handlers (promises fulfilled_world 0) = [] \<and> deferred fulfilled_world = [] \<and> nextId fulfilled_world = 1"
  by (simp add: fulfilled_world_def eval_defs)

lemma pending_world_facts:
  "p_state (promises pending_world 0) = PENDING \<and> p_handlers (promises pending_world 0) = [] \<and>
   deferred pending_world = [] \<and> nextId pending_world = 1"
  by (simp add: pending_world_def never_settles_def new_MyPromise_def empty_world_def Let_def)

lemma registered_world_facts:
  "p_state (promises registered_world 0) = PENDING \<and>
   p_handlers (promises registered_world 0) =
     [then_handler (Fn (User 0)) FULFILLED 1, then_handler Undefined REJECTED 1] \<and>
   deferred registered_world = [] \<and> nextId registered_world = 2 \<and>
   p_state (promises registered_world 1) = PENDING"
proof -
  have pd: "(0::nat) \<noteq> nextId pending_world" using pending_world_facts by simp
  have c: "MyPromise_then node_host 0 (Fn (User 0)) Undefined pending_world =
     (fst (MyPromise_then node_host 0 (Fn (User 0)) Undefined pending_world), registered_world)"
    by (simp add: registered_world_def)
  from then_pending [OF _ pd c, of 0] then_pending [OF _ pd c, of 1] pending_world_facts
  show ?thesis by simp
qed

lemma chained_world_facts:
  "p_state (promises chained_world 0) = REJECTED \<and> p_value (promises chained_world 0) = Str ''x'' \<and>
   p_state (promises chained_world 1) = PENDING"
  by (simp add: chained_world_def rejected_world_def eval_defs pushHandler_def set_promise_def init_promise_def)

lemma two_settled_world_facts:
  "p_state (promises two_settled_world 0) = FULFILLED \<and> p_value (promises two_settled_world 0) = Num 1 \<and>
   p_handlers (promises two_settled_world 0) = [] \<and>
   p_state (promises two_settled_world 1) = REJECTED \<and> p_value (promises two_settled_world 1) = Str ''x'' \<and>
   p_handlers (promises two_settled_world 1) = [] \<and>
   deferred two_settled_world = [] \<and> nextId two_settled_world = 2"
  using fulfilled_world_0 fulfilled_world_more
  by (simp add: two_settled_world_def MyPromise_reject_def new_MyPromise_def p_reject_def
        changeState_def runHandlers_def runHandlers_loop.simps Let_def)

lemma settled_and_pending_world_facts:
  "p_state (promises settled_and_pending_world 0) = FULFILLED \<and>
   p_value (promises settled_and_pending_world 0) = Num 1 \<and>
   p_handlers (promises settled_and_pending_world 0) = [] \<and>
   p_state (promises settled_and_pending_world 1) = PENDING \<and>
   p_handlers (promises settled_and_pending_world 1) = [] \<and>
   deferred settled_and_pending_world = [] \<and> nextId settled_and_pending_world = 2"
  using fulfilled_world_0 fulfilled_world_more
  by (simp add: settled_and_pending_world_def new_MyPromise_def never_settles_def Let_def)

lemma two_pending_world_facts:
  "p_state (promises two_pending_world 0) = PENDING \<and> p_handlers (promises two_pending_world 0) = [] \<and>
   p_state (promises two_pending_world 1) = PENDING \<and> p_handlers (promises two_pending_world 1) = [] \<and>
   deferred two_pending_world = [] \<and> nextId two_pending_world = 2 \<and> nextCtx two_pending_world = 0"
  using pending_world_facts
  by (simp add: two_pending_world_def new_MyPromise_def never_settles_def Let_def
        pending_world_def empty_world_def)

lemma three_world_facts:
  "p_state (promises three_world 0) = FULFILLED \<and> p_value (promises three_world 0) = Num 1 \<and>
   p_state (promises three_world 1) = PENDING \<and> p_handlers (promises three_world 1) = [] \<and>
   p_state (promises three_world 2) = PENDING \<and> p_handlers (promises three_world 2) = [] \<and>
   deferred three_world = [] \<and> nextId three_world = 3"
  using settled_and_pending_world_facts
  by (simp add: three_world_def new_MyPromise_def never_settles_def Let_def)

lemma three_settled_world_facts:
  "p_state (promises three_settled_world 0) = FULFILLED \<and> p_value (promises three_settled_world 0) = Num 1 \<and>
   p_state (promises three_settled_world 1) = REJECTED \<and> p_value (promises three_settled_world 1) = Str ''x'' \<and>
   p_handlers (promises three_settled_world 1) = [] \<and>
   p_state (promises three_settled_world 2) = PENDING \<and> p_handlers (promises three_settled_world 2) = [] \<and>
   deferred three_settled_world = [] \<and> nextId three_settled_world = 3"
  using two_settled_world_facts
  by (simp add: three_settled_world_def new_MyPromise_def never_settles_def Let_def)

text \<open>The definitions an example unfolds when it is run.\<close>

lemmas run_defs =
  and_then_def observe_def MyPromise_resolve_def MyPromise_reject_def
  MyPromise_all_def MyPromise_then_def new_MyPromise_def empty_world_def node_host_def
  no_user_def isPromise_def p_resolve_def p_reject_def changeState_def runHandlers_def
  runOneHandler_def runMicroTask_def run_task_def next_task_def apply_fn_def call_then_def
  call_value_def completion_def discard_def all_onFulfilled_def array_set_def Let_def eval_nat_numeral
  runHandlers_loop.simps never_settles_def observer_host_def snapshot_def

section \<open>Settlement happens once\<close>

text \<open>
  C1. Once a promise has left \<open>PENDING\<close>, a call of \<^verbatim>\<open>_changeState\<close>, of \<^verbatim>\<open>_resolve\<close> or
  \<^verbatim>\<open>_reject\<close>, or of either capability handed out by the constructor, with any value and on
  any host, returns normally and leaves the whole world as it was: the state, the value
  and the handler queue of the promise, and everything else.
\<close>

theorem settled_promise_ignores_settlement:
  assumes "p_state (promises w p) \<noteq> PENDING"
  shows "changeState h p newState v w = (None, w) \<and>
         p_resolve h p v w = (None, w) \<and> p_reject h p v w = (None, w) \<and>
         apply_fn h env (Resolve p) v w = (Inr Undefined, w) \<and>
         apply_fn h env (Reject p) v w = (Inr Undefined, w)"
  using assms
  by (simp add: changeState_settled p_resolve_def p_reject_def apply_fn_def completion_def)


theorem settled_promise_ignores_settlement_witness:
  "p_state (promises fulfilled_world 0) \<noteq> PENDING \<and>
   changeState node_host 0 REJECTED (Str ''late'') fulfilled_world = (None, fulfilled_world) \<and>
   p_resolve node_host 0 (Str ''late'') fulfilled_world = (None, fulfilled_world) \<and>
   p_reject node_host 0 (Str ''late'') fulfilled_world = (None, fulfilled_world) \<and>
   apply_fn node_host no_user (Resolve 0) (Str ''late'') fulfilled_world = (Inr Undefined, fulfilled_world) \<and>
   apply_fn node_host no_user (Reject 0) (Str ''late'') fulfilled_world = (Inr Undefined, fulfilled_world)"
proof -
  have st: "p_state (promises fulfilled_world 0) \<noteq> PENDING"
    using fulfilled_world_0 by simp
  from settled_promise_ignores_settlement [OF st, of node_host REJECTED "Str ''late''" no_user] st
  show ?thesis by simp
qed

section \<open>Handlers run once, in order, through the adapter\<close>

text \<open>
  On a host with \<^verbatim>\<open>process.nextTick\<close>:
  \<^item> settling a pending promise hands every queued handler to the adapter, one callback
    each, in registration order, and empties the queue; no other promise changes during
    the call, so no handler ran inside it;
  \<^item> \<^verbatim>\<open>then\<close> on a settled promise hands the two new registrations to the adapter, after
    whatever was still queued, and returns a promise that is still pending;
  \<^item> \<^verbatim>\<open>then\<close> on a pending promise appends the two registrations to the queue and hands
    nothing to the adapter.
\<close>

lemma handlers_are_handed_over_node:
  "process h = ProcessObject True \<longrightarrow>
   (p_state (promises w p) = PENDING \<and> s \<noteq> PENDING \<and> changeState h p s v w = (e, w') \<longrightarrow>
      e = None \<and>
      promises w' p = \<lparr>p_state = s, p_value = v, p_handlers = []\<rparr> \<and>
      deferred w' = deferred w @ map (\<lambda>x. (NextTick, Task p x)) (p_handlers (promises w p)) \<and>
      (\<forall>q. q \<noteq> p \<longrightarrow> promises w' q = promises w q)) \<and>
   (p_state (promises w p) \<noteq> PENDING \<and> p < nextId w \<and>
    MyPromise_then h p onFulfilled onRejected w = (r, w1) \<longrightarrow>
      r = Inr (nextId w) \<and>
      promises w1 (nextId w) = \<lparr>p_state = PENDING, p_value = Undefined, p_handlers = []\<rparr> \<and>
      promises w1 p = (promises w p)\<lparr>p_handlers := []\<rparr> \<and>
      deferred w1 = deferred w @ map (\<lambda>x. (NextTick, Task p x))
         (p_handlers (promises w p) @
            [then_handler onFulfilled FULFILLED (nextId w), then_handler onRejected REJECTED (nextId w)]) \<and>
      (\<forall>q. q \<noteq> p \<and> q \<noteq> nextId w \<longrightarrow> promises w1 q = promises w q)) \<and>
   (p_state (promises w p) = PENDING \<and> p < nextId w \<and>
    MyPromise_then h p onFulfilled onRejected w = (r, w1) \<longrightarrow>
      r = Inr (nextId w) \<and>
      promises w1 (nextId w) = \<lparr>p_state = PENDING, p_value = Undefined, p_handlers = []\<rparr> \<and>
      promises w1 p = (promises w p)\<lparr>p_handlers := p_handlers (promises w p) @
            [then_handler onFulfilled FULFILLED (nextId w), then_handler onRejected REJECTED (nextId w)]\<rparr> \<and>
      deferred w1 = deferred w \<and>
      (\<forall>q. q \<noteq> p \<and> q \<noteq> nextId w \<longrightarrow> promises w1 q = promises w q))"
proof (intro impI conjI allI)
  assume node: "process h = ProcessObject True"
  {
    assume a: "p_state (promises w p) = PENDING \<and> s \<noteq> PENDING \<and> changeState h p s v w = (e, w')"
    then have cs: "changeState h p s v w = (e, w')" and pe: "p_state (promises w p) = PENDING"
      and s: "s \<noteq> PENDING" by simp_all
    note n = changeState_node [OF node pe s cs]
    show "e = None" using n [of p] by simp
    show "promises w' p = \<lparr>p_state = s, p_value = v, p_handlers = []\<rparr>" using n [of p] by simp
    show "deferred w' = deferred w @ map (\<lambda>x. (NextTick, Task p x)) (p_handlers (promises w p))"
      using n [of p] by simp
    fix q assume "q \<noteq> p" then show "promises w' q = promises w q" using n [of q] by simp
  }
  {
    assume a: "p_state (promises w p) \<noteq> PENDING \<and> p < nextId w \<and>
      MyPromise_then h p onFulfilled onRejected w = (r, w1)"
    then have st: "p_state (promises w p) \<noteq> PENDING" and pd: "p \<noteq> nextId w"
      and call: "MyPromise_then h p onFulfilled onRejected w = (r, w1)" by simp_all
    note n = then_settled_node [OF node st pd call]
    show "r = Inr (nextId w)" using n [of p] by simp
    show "promises w1 (nextId w) = \<lparr>p_state = PENDING, p_value = Undefined, p_handlers = []\<rparr>"
      using n [of "nextId w"] by simp
    show "promises w1 p = (promises w p)\<lparr>p_handlers := []\<rparr>" using n [of p] pd by simp
    show "deferred w1 = deferred w @ map (\<lambda>x. (NextTick, Task p x))
         (p_handlers (promises w p) @
            [then_handler onFulfilled FULFILLED (nextId w), then_handler onRejected REJECTED (nextId w)])"
      using n [of p] by simp
    fix q assume "q \<noteq> p \<and> q \<noteq> nextId w" then show "promises w1 q = promises w q"
      using n [of q] by simp
  }
  {
    assume a: "p_state (promises w p) = PENDING \<and> p < nextId w \<and>
      MyPromise_then h p onFulfilled onRejected w = (r, w1)"
    then have st: "p_state (promises w p) = PENDING" and pd: "p \<noteq> nextId w"
      and call: "MyPromise_then h p onFulfilled onRejected w = (r, w1)" by simp_all
    note n = then_pending [OF st pd call]
    show "r = Inr (nextId w)" using n [of p] by simp
    show "promises w1 (nextId w) = \<lparr>p_state = PENDING, p_value = Undefined, p_handlers = []\<rparr>"
      using n [of "nextId w"] by simp
    show "promises w1 p = (promises w p)\<lparr>p_handlers := p_handlers (promises w p) @
            [then_handler onFulfilled FULFILLED (nextId w), then_handler onRejected REJECTED (nextId w)]\<rparr>"
      using n [of p] pd by simp
    show "deferred w1 = deferred w" using n [of p] by simp
    fix q assume "q \<noteq> p \<and> q \<noteq> nextId w" then show "promises w1 q = promises w q"
      using n [of q] by simp
  }
qed

text \<open>
  C2. On a host where \<^verbatim>\<open>process\<close> has no \<^verbatim>\<open>nextTick\<close> and \<^verbatim>\<open>MutationObserver\<close> exists, a
  handler is never executed, whether it was registered before the settlement or after it:
  when the settling call (the registering call) returns, the host holds no callback, and
  once the host has nothing left to run the two promises \<^verbatim>\<open>then\<close> returned are still pending
  and no continuation has left its mark. The same two programs on a host with
  \<^verbatim>\<open>process.nextTick\<close>: the host holds four callbacks when the call returns and none has run
  yet; afterwards the continuation registered first has run first, and each continuation
  has given its result to the promise its \<^verbatim>\<open>then\<close> returned.
\<close>

theorem handlers_never_run_when_MutationObserver_exists:
  "early_registration_example observer_host =
     Some ((0, [(PENDING, Undefined), (PENDING, Undefined), (PENDING, Undefined)]),
           Some (None, 0, [(PENDING, Undefined), (PENDING, Undefined), (PENDING, Undefined)])) \<and>
   late_registration_example observer_host =
     Some ((0, [(PENDING, Undefined), (PENDING, Undefined), (PENDING, Undefined)]),
           Some (None, 0, [(PENDING, Undefined), (PENDING, Undefined), (PENDING, Undefined)])) \<and>
   early_registration_example node_host =
     Some ((4, [(PENDING, Undefined), (PENDING, Undefined), (PENDING, Undefined)]),
           Some (None, 0, [(FULFILLED, Str ''first''), (FULFILLED, Str ''a''), (FULFILLED, Str ''b'')])) \<and>
   late_registration_example node_host =
     Some ((4, [(PENDING, Undefined), (PENDING, Undefined), (PENDING, Undefined)]),
           Some (None, 0, [(FULFILLED, Str ''first''), (FULFILLED, Str ''a''), (FULFILLED, Str ''b'')]))"
proof -
  have "early_registration_example observer_host =
     Some ((0, [(PENDING, Undefined), (PENDING, Undefined), (PENDING, Undefined)]),
           Some (None, 0, [(PENDING, Undefined), (PENDING, Undefined), (PENDING, Undefined)]))"
    by (simp add: early_registration_example_def marking_env_def run_defs)
  moreover have "late_registration_example observer_host =
     Some ((0, [(PENDING, Undefined), (PENDING, Undefined), (PENDING, Undefined)]),
           Some (None, 0, [(PENDING, Undefined), (PENDING, Undefined), (PENDING, Undefined)]))"
    by (simp add: late_registration_example_def marking_env_def run_defs)
  moreover have "early_registration_example node_host =
     Some ((4, [(PENDING, Undefined), (PENDING, Undefined), (PENDING, Undefined)]),
           Some (None, 0, [(FULFILLED, Str ''first''), (FULFILLED, Str ''a''), (FULFILLED, Str ''b'')]))"
    by (simp add: early_registration_example_def marking_env_def run_defs)
  moreover have "late_registration_example node_host =
     Some ((4, [(PENDING, Undefined), (PENDING, Undefined), (PENDING, Undefined)]),
           Some (None, 0, [(FULFILLED, Str ''first''), (FULFILLED, Str ''a''), (FULFILLED, Str ''b'')]))"
    by (simp add: late_registration_example_def marking_env_def run_defs)
  ultimately show ?thesis by (intro conjI)
qed

section \<open>The all combinator\<close>

text \<open>
  \<^verbatim>\<open>MyPromise.all([])\<close> returns, on any host, a promise that is already fulfilled with an
  empty array. On a host with \<^verbatim>\<open>process.nextTick\<close> and nothing else to run, let \<^verbatim>\<open>all\<close> be called
  on distinct pending promises of this class, and let any of them be settled afterwards, in
  any order, the host running its callbacks after each settlement. The promise \<^verbatim>\<open>all\<close>
  returned is pending at the return (when there is an input) and then: rejected with the
  reason of the first input that was rejected, if one was; else fulfilled, once every input
  has been fulfilled, with an array that holds at each index the value of the input at that
  index; else still pending.
\<close>

lemma all_on_pending_inputs_node:
  "(MyPromise_all h env [] w = (r, w1) \<longrightarrow>
      r = Inr (nextId w) \<and> p_state (promises w1 (nextId w)) = FULFILLED \<and>
      p_value (promises w1 (nextId w)) = ArrRef (nextCtx w) \<and>
      results (ctxs w1 (nextCtx w)) = []) \<and>
   (process h = ProcessObject True \<and> deferred w = [] \<and> distinct qs \<and>
    (\<forall>q\<in>set qs. q < nextId w \<and> p_state (promises w q) = PENDING \<and>
                  p_handlers (promises w q) = []) \<and>
    distinct (map fst evs) \<and>
    (\<forall>(i, s, v)\<in>set evs. i < length qs \<and> (s = FULFILLED \<or> s = REJECTED)) \<and>
    MyPromise_all h env (map PromiseRef qs) w = (r, w1) \<longrightarrow>
      r = Inr (nextId w) \<and>
      (qs \<noteq> [] \<longrightarrow> p_state (promises w1 (nextId w)) = PENDING) \<and>
      (\<exists>w2. settle_inputs h env qs evs w1 = Some w2 \<and>
         (case first_reason evs of
            Some reason \<Rightarrow>
              p_state (promises w2 (nextId w)) = REJECTED \<and>
              p_value (promises w2 (nextId w)) = reason
          | None \<Rightarrow>
              if length evs = length qs
              then p_state (promises w2 (nextId w)) = FULFILLED \<and>
                   p_value (promises w2 (nextId w)) = ArrRef (nextCtx w) \<and>
                   results (ctxs w2 (nextCtx w)) = map (fulfilled_values evs) [0..<length qs]
              else p_state (promises w2 (nextId w)) = PENDING)))"
proof (intro conjI impI)
  assume "MyPromise_all h env [] w = (r, w1)"
  from all_empty [OF this]
  show "r = Inr (nextId w)" "p_state (promises w1 (nextId w)) = FULFILLED"
    "p_value (promises w1 (nextId w)) = ArrRef (nextCtx w)" "results (ctxs w1 (nextCtx w)) = []"
    by simp_all
next
  let ?a = "nextId w" and ?c = "nextCtx w" and ?n = "length qs"
  assume asm: "process h = ProcessObject True \<and> deferred w = [] \<and> distinct qs \<and>
    (\<forall>q\<in>set qs. q < nextId w \<and> p_state (promises w q) = PENDING \<and>
                  p_handlers (promises w q) = []) \<and>
    distinct (map fst evs) \<and>
    (\<forall>(i, s, v)\<in>set evs. i < length qs \<and> (s = FULFILLED \<or> s = REJECTED)) \<and>
    MyPromise_all h env (map PromiseRef qs) w = (r, w1)"
  then have node: "process h = ProcessObject True" and quiet: "deferred w = []"
    and dist: "distinct qs"
    and pend: "\<forall>q\<in>set qs. q < nextId w \<and> p_state (promises w q) = PENDING \<and>
                  p_handlers (promises w q) = []"
    and devs: "distinct (map fst evs)"
    and wf: "\<forall>(i, s, v)\<in>set evs. i < length qs \<and> (s = FULFILLED \<or> s = REJECTED)"
    and call: "MyPromise_all h env (map PromiseRef qs) w = (r, w1)"
    by blast+
  note init = all_establishes_inv [OF dist pend quiet call]
  then have inv1: "all_inv ?a ?c qs (\<lambda>j. None) 0 None {} w1" by simp
  show "r = Inr (nextId w)" using init by simp
  show "p_state (promises w1 (nextId w)) = PENDING" if "qs \<noteq> []"
    using inv1 that by (simp add: all_inv_def)
  have below: "\<forall>q\<in>set qs. q < ?a" using pend by simp
  have wf': "\<forall>(i, s, v)\<in>set evs. i < length qs \<and> i \<notin> {} \<and> (s = FULFILLED \<or> s = REJECTED)"
    using wf by simp
  from settle_inputs_inv [OF node dist below inv1 devs wf', of env]
  obtain w2 where s2: "settle_inputs h env qs evs w1 = Some w2"
    and inv2: "all_inv ?a ?c qs (fulfilled_values evs) (fulfilments evs) (first_reason evs)
                 (fst ` set evs) w2"
  proof -
    have "(\<lambda>j. case fulfilled_values evs j of Some x \<Rightarrow> Some x | None \<Rightarrow> None) = fulfilled_values evs"
      by (auto simp: fun_eq_iff split: option.splits)
    then show ?thesis
      using that settle_inputs_inv [OF node dist below inv1 devs wf', of env] by auto
  qed
  have final: "case first_reason evs of
            Some reason \<Rightarrow>
              p_state (promises w2 ?a) = REJECTED \<and> p_value (promises w2 ?a) = reason
          | None \<Rightarrow>
              if length evs = ?n
              then p_state (promises w2 ?a) = FULFILLED \<and>
                   p_value (promises w2 ?a) = ArrRef ?c \<and>
                   results (ctxs w2 ?c) = map (fulfilled_values evs) [0..<?n]
              else p_state (promises w2 ?a) = PENDING"
  proof (cases "first_reason evs")
    case (Some reason)
    with inv2 show ?thesis by (simp add: all_inv_def)
  next
    case None
    have wf2: "\<forall>(i, s, v)\<in>set evs. s = FULFILLED \<or> s = REJECTED" using wf by fastforce
    from no_reason_all_fulfilled [OF None wf2]
    have k: "fulfilments evs = length evs" and allf: "\<forall>(i, s, v)\<in>set evs. s = FULFILLED"
      by simp_all
    show ?thesis
    proof (cases "length evs = ?n")
      case False
      with inv2 None k show ?thesis by (simp add: all_inv_def)
    next
      case True
      let ?R = "results (ctxs w2 ?c)"
      from inv2 None k True have st: "p_state (promises w2 ?a) = FULFILLED"
        "p_value (promises w2 ?a) = ArrRef ?c"
        and len: "length ?R \<le> ?n" and Rm: "\<forall>j<length ?R. ?R ! j = fulfilled_values evs j"
        and mR: "\<forall>j. fulfilled_values evs j \<noteq> None \<longrightarrow> j < length ?R"
        by (simp_all add: all_inv_def)
      have sub: "set (map fst evs) \<subseteq> {..<?n}" using wf by auto
      have "card (set (map fst evs)) = length (map fst evs)" using devs by (rule distinct_card)
      then have "card (set (map fst evs)) = ?n" using True by simp
      with sub have cover: "set (map fst evs) = {..<?n}"
        by (intro card_subset_eq) simp_all
      have present: "fulfilled_values evs j \<noteq> None" if "j < ?n" for j
      proof -
        from that cover have "j \<in> fst ` set evs" by auto
        then obtain s v where "(j, s, v) \<in> set evs" by force
        with allf have "(j, FULFILLED, v) \<in> set evs" by auto
        then show ?thesis by (rule fulfilled_values_present)
      qed
      have "length ?R = ?n"
      proof (cases "?n")
        case 0
        with len show ?thesis by simp
      next
        case (Suc n')
        then have "fulfilled_values evs n' \<noteq> None" using present [of n'] by simp
        with mR have "n' < length ?R" by blast
        with len Suc show ?thesis by simp
      qed
      with Rm have "?R = map (fulfilled_values evs) [0..<?n]"
        by (intro nth_equalityI) simp_all
      with st None True show ?thesis by simp
    qed
  qed
  with s2 show "\<exists>w2. settle_inputs h env qs evs w1 = Some w2 \<and>
         (case first_reason evs of
            Some reason \<Rightarrow>
              p_state (promises w2 (nextId w)) = REJECTED \<and>
              p_value (promises w2 (nextId w)) = reason
          | None \<Rightarrow>
              if length evs = length qs
              then p_state (promises w2 (nextId w)) = FULFILLED \<and>
                   p_value (promises w2 (nextId w)) = ArrRef (nextCtx w) \<and>
                   results (ctxs w2 (nextCtx w)) = map (fulfilled_values evs) [0..<length qs]
              else p_state (promises w2 (nextId w)) = PENDING)"
    by blast
qed

lemma all_on_pending_inputs_node_example:
  "fst (MyPromise_all node_host no_user [] empty_world) = Inr 0 \<and>
   p_state (promises (snd (MyPromise_all node_host no_user [] empty_world)) 0) = FULFILLED \<and>
   p_value (promises (snd (MyPromise_all node_host no_user [] empty_world)) 0) = ArrRef 0 \<and>
   results (ctxs (snd (MyPromise_all node_host no_user [] empty_world)) 0) = [] \<and>
   process node_host = ProcessObject True \<and> deferred two_pending_world = [] \<and>
   nextId two_pending_world = 2 \<and>
   p_state (promises two_pending_world 0) = PENDING \<and>
   p_state (promises two_pending_world 1) = PENDING \<and>
   fst (MyPromise_all node_host no_user [PromiseRef 0, PromiseRef 1] two_pending_world) = Inr 2 \<and>
   p_state (promises (snd (MyPromise_all node_host no_user [PromiseRef 0, PromiseRef 1] two_pending_world)) 2) = PENDING \<and>
   (\<exists>w2. settle_inputs node_host no_user [0, 1] [(1, FULFILLED, Num 2), (0, FULFILLED, Num 1)]
            (snd (MyPromise_all node_host no_user [PromiseRef 0, PromiseRef 1] two_pending_world)) = Some w2 \<and>
         p_state (promises w2 2) = FULFILLED \<and> p_value (promises w2 2) = ArrRef 0 \<and>
         results (ctxs w2 0) = [Some (Num 1), Some (Num 2)]) \<and>
   (\<exists>w2. settle_inputs node_host no_user [0, 1] [(1, REJECTED, Str ''err'')]
            (snd (MyPromise_all node_host no_user [PromiseRef 0, PromiseRef 1] two_pending_world)) = Some w2 \<and>
         p_state (promises w2 2) = REJECTED \<and> p_value (promises w2 2) = Str ''err'')"
proof -
  let ?w = two_pending_world
  let ?call = "MyPromise_all node_host no_user (map PromiseRef [0, 1]) ?w"
  have node: "process node_host = ProcessObject True" by (simp add: node_host_def)
  have e0: "MyPromise_all node_host no_user [] empty_world =
      (fst (MyPromise_all node_host no_user [] empty_world),
       snd (MyPromise_all node_host no_user [] empty_world))"
    by simp
  note t0 = all_on_pending_inputs_node [THEN conjunct1, rule_format, OF e0]
  have z: "nextId empty_world = 0" "nextCtx empty_world = 0" by (simp_all add: empty_world_def)
  have h1: "process node_host = ProcessObject True \<and> deferred ?w = [] \<and> distinct [0::nat, 1] \<and>
    (\<forall>q\<in>set [0, 1]. q < nextId ?w \<and> p_state (promises ?w q) = PENDING \<and>
                  p_handlers (promises ?w q) = []) \<and>
    distinct (map fst [(1::nat, FULFILLED, Num 2), (0, FULFILLED, Num 1)]) \<and>
    (\<forall>(i, s, v)\<in>set [(1::nat, FULFILLED, Num 2), (0, FULFILLED, Num 1)].
        i < length [0::nat, 1] \<and> (s = FULFILLED \<or> s = REJECTED)) \<and>
    ?call = (fst ?call, snd ?call)"
    using two_pending_world_facts node by simp
  have h2: "process node_host = ProcessObject True \<and> deferred ?w = [] \<and> distinct [0::nat, 1] \<and>
    (\<forall>q\<in>set [0, 1]. q < nextId ?w \<and> p_state (promises ?w q) = PENDING \<and>
                  p_handlers (promises ?w q) = []) \<and>
    distinct (map fst [(1::nat, REJECTED, Str ''err'')]) \<and>
    (\<forall>(i, s, v)\<in>set [(1::nat, REJECTED, Str ''err'')].
        i < length [0::nat, 1] \<and> (s = FULFILLED \<or> s = REJECTED)) \<and>
    ?call = (fst ?call, snd ?call)"
    using two_pending_world_facts node by simp
  note t1 = all_on_pending_inputs_node [THEN conjunct2, rule_format, OF h1]
  note t2 = all_on_pending_inputs_node [THEN conjunct2, rule_format, OF h2]
  have ne: "[0::nat, 1] \<noteq> []" by simp
  note p1 = t1 [THEN conjunct2, THEN conjunct1, rule_format, OF ne]
  have up: "[0..<length [0::nat, 1]] = [0, 1]" by (simp add: upt_rec)
  from t0 z t1 [THEN conjunct1] p1 t1 [THEN conjunct2, THEN conjunct2] t2 [THEN conjunct2, THEN conjunct2]
    two_pending_world_facts node up
  show ?thesis
    by (simp del: settle_inputs.simps)
qed

text \<open>
  C6. On a host where \<^verbatim>\<open>process\<close> has no \<^verbatim>\<open>nextTick\<close> and \<^verbatim>\<open>MutationObserver\<close> exists, the
  promise \<^verbatim>\<open>all\<close> returns for a non-empty input never settles: it is still pending when every
  input is fulfilled and the host has nothing left to run, and also when an input is
  rejected. This holds for inputs that are a plain value, a fulfilled promise and a foreign
  thenable, and for two pending promises that are settled after the call. The same
  programs on a host with \<^verbatim>\<open>process.nextTick\<close> end as the inputs say: fulfilled with the values
  in input order, whatever the order of completion, or rejected with the reason of the
  rejected input.
\<close>

theorem all_stays_pending_when_MutationObserver_exists:
  "all_example observer_host = Some (None, PENDING, Undefined, []) \<and>
   all_of_two_example observer_host [(1, FULFILLED, Num 2), (0, FULFILLED, Num 1)] =
     Some (None, PENDING, Undefined, []) \<and>
   all_of_two_example observer_host [(1, REJECTED, Str ''x''), (0, FULFILLED, Num 1)] =
     Some (None, PENDING, Undefined, []) \<and>
   all_example node_host =
     Some (None, FULFILLED, ArrRef 0, [Some (Num 1), Some (Num 2), Some (Num 3)]) \<and>
   all_of_two_example node_host [(1, FULFILLED, Num 2), (0, FULFILLED, Num 1)] =
     Some (None, FULFILLED, ArrRef 0, [Some (Num 1), Some (Num 2)]) \<and>
   all_of_two_example node_host [(1, REJECTED, Str ''x''), (0, FULFILLED, Num 1)] =
     Some (None, REJECTED, Str ''x'', [])"
proof -
  have "all_example observer_host = Some (None, PENDING, Undefined, [])"
    by (simp add: all_example_def run_defs)
  moreover have "all_of_two_example observer_host [(1, FULFILLED, Num 2), (0, FULFILLED, Num 1)] =
     Some (None, PENDING, Undefined, [])"
    by (simp add: all_of_two_example_def run_defs)
  moreover have "all_of_two_example observer_host [(1, REJECTED, Str ''x''), (0, FULFILLED, Num 1)] =
     Some (None, PENDING, Undefined, [])"
    by (simp add: all_of_two_example_def run_defs)
  moreover have "all_example node_host =
     Some (None, FULFILLED, ArrRef 0, [Some (Num 1), Some (Num 2), Some (Num 3)])"
    by (simp add: all_example_def run_defs)
  moreover have "all_of_two_example node_host [(1, FULFILLED, Num 2), (0, FULFILLED, Num 1)] =
     Some (None, FULFILLED, ArrRef 0, [Some (Num 1), Some (Num 2)])"
    by (simp add: all_of_two_example_def run_defs)
  moreover have "all_of_two_example node_host [(1, REJECTED, Str ''x''), (0, FULFILLED, Num 1)] =
     Some (None, REJECTED, Str ''x'', [])"
    by (simp add: all_of_two_example_def run_defs)
  ultimately show ?thesis by (intro conjI)
qed

section \<open>The descriptors of allSettled\<close>

text \<open>
  C3. For an input that fulfills with 1 and an input that rejects with \<^verbatim>\<open>'x'\<close>, the promise
  \<^verbatim>\<open>allSettled\<close> returns fulfills with two descriptors in input order, and the second one
  reads \<^verbatim>\<open>{status: 'fulfilled', reason: 'x'}\<close>: the callback for a rejection tags its
  descriptor with \<^verbatim>\<open>FULFILLED\<close>, whatever the reason.
\<close>

theorem allSettled_tags_rejection_as_fulfilled:
  "allSettled_example =
     Some (None, FULFILLED, ArrRef 0,
       [Some (Obj [(''status'', Str ''fulfilled''), (''value'', Num 1)]),
        Some (Obj [(''status'', Str ''fulfilled''), (''reason'', Str ''x'')])]) \<and>
   apply_fn h env SettledReason reason w =
     (Inr (Obj [(''status'', Str ''fulfilled''), (''reason'', reason)]), w)"
  by (simp add: allSettled_example_def and_then_def observe_def MyPromise_resolve_def MyPromise_reject_def
      MyPromise_allSettled_def MyPromise_all_def MyPromise_then_def new_MyPromise_def empty_world_def node_host_def
      no_user_def isPromise_def p_resolve_def p_reject_def changeState_def runHandlers_def
      runOneHandler_def runMicroTask_def run_task_def next_task_def apply_fn_def call_then_def
      call_value_def completion_def discard_def all_onFulfilled_def array_set_def Let_def eval_nat_numeral
      runHandlers_loop.simps)

section \<open>The race combinator\<close>

text \<open>
  C4. \<^verbatim>\<open>MyPromise.race\<close> calls the class without \<^verbatim>\<open>new\<close>: for every input it throws a
  TypeError, returns no promise and leaves the world untouched.
\<close>

theorem race_throws_TypeError:
  "MyPromise_race h env proms w =
     (Inl (TypeError ''Class constructor MyPromise cannot be invoked without new''), w)"
  by (simp add: MyPromise_race_def call_MyPromise_def)

section \<open>The adapter on a host with MutationObserver\<close>

text \<open>
  C5. On a host where \<^verbatim>\<open>process\<close> is declared without a usable \<^verbatim>\<open>nextTick\<close> and
  \<^verbatim>\<open>MutationObserver\<close> exists, the adapter takes its second branch, whose body is empty: it
  returns normally and the callback has been handed to no facility of the host.
\<close>

theorem adapter_drops_callback_when_MutationObserver_exists:
  "runMicroTask \<lparr>process = ProcessFalsy, MutationObserver = ObserverTruthy\<rparr> callback w = (None, w) \<and>
   runMicroTask \<lparr>process = ProcessObject False, MutationObserver = ObserverTruthy\<rparr> callback w = (None, w)"
  by (simp add: runMicroTask_def)

section \<open>A missing continuation passes the outcome through\<close>

text \<open>
  C7. When the callback of a handler made by \<^verbatim>\<open>then\<close> runs, the promise is in the state the
  handler watches and no continuation was given for it (\<^verbatim>\<open>undefined\<close>, or the \<^verbatim>\<open>null\<close> that
  \<^verbatim>\<open>catch\<close> passes), the callback is one call of the downstream capability of that state
  with the settled value, and a downstream promise that was pending ends in the same
  state with the same value. In particular, on a host with \<^verbatim>\<open>process.nextTick\<close> and nothing
  else to run, \<^verbatim>\<open>then(f)\<close> on a rejected promise returns a pending promise that is rejected
  with the same reason once the host has run the two callbacks.
\<close>

theorem missing_continuation_passes_outcome_through:
  "(p_state (promises w p) = st \<and> st \<noteq> PENDING \<and> (x = Undefined \<or> x = Null) \<and>
    p_state (promises w d) = PENDING \<and>
    run_task h env (Task p (then_handler x st d)) w = (e, w') \<longrightarrow>
      (e, w') = discard (apply_fn h env (if st = FULFILLED then Resolve d else Reject d)
                           (p_value (promises w p)) w) \<and>
      p_state (promises w' d) = st \<and> p_value (promises w' d) = p_value (promises w p)) \<and>
   (process h = ProcessObject True \<and> deferred w = [] \<and> p_handlers (promises w p) = [] \<and>
    p < nextId w \<and> p_state (promises w p) = REJECTED \<and>
    (onRejected = Undefined \<or> onRejected = Null) \<and>
    MyPromise_then h p onFulfilled onRejected w = (r, w1) \<longrightarrow>
      r = Inr (nextId w) \<and> p_state (promises w1 (nextId w)) = PENDING \<and>
      (\<exists>w2. run_loop (Suc (Suc n)) h env w1 = Some (None, w2) \<and>
            p_state (promises w2 (nextId w)) = REJECTED \<and>
            p_value (promises w2 (nextId w)) = p_value (promises w p) \<and>
            deferred w2 = []))"
proof (intro conjI impI)
  assume a: "p_state (promises w p) = st \<and> st \<noteq> PENDING \<and> (x = Undefined \<or> x = Null) \<and>
    p_state (promises w d) = PENDING \<and>
    run_task h env (Task p (then_handler x st d)) w = (e, w')"
  then have nf: "\<not> is_function (executor (then_handler x st d))" by auto
  from a have eq: "(e, w') = discard (apply_fn h env (if st = FULFILLED then Resolve d else Reject d)
                           (p_value (promises w p)) w)"
    using run_task_not_function [OF nf, of w p h env] by simp
  obtain ra wa where ap: "apply_fn h env (if st = FULFILLED then Resolve d else Reject d)
                           (p_value (promises w p)) w = (ra, wa)"
    by (cases "apply_fn h env (if st = FULFILLED then Resolve d else Reject d) (p_value (promises w p)) w")
  with eq have "w' = wa" by (cases ra) (simp_all add: discard_def)
  with capability_effect [OF _ ap, of d] a
  have "p_state (promises w' d) = st \<and> p_value (promises w' d) = p_value (promises w p)"
    by simp
  with eq show "(e, w') = discard (apply_fn h env (if st = FULFILLED then Resolve d else Reject d)
                           (p_value (promises w p)) w)"
    and "p_state (promises w' d) = st" and "p_value (promises w' d) = p_value (promises w p)"
    by simp_all
next
  assume a: "process h = ProcessObject True \<and> deferred w = [] \<and> p_handlers (promises w p) = [] \<and>
    p < nextId w \<and> p_state (promises w p) = REJECTED \<and>
    (onRejected = Undefined \<or> onRejected = Null) \<and>
    MyPromise_then h p onFulfilled onRejected w = (r, w1)"
  then have nf: "if REJECTED = FULFILLED then \<not> is_function onFulfilled else \<not> is_function onRejected"
    by auto
  from a then_passthrough_node [of h w p REJECTED onFulfilled onRejected r w1 n env, OF _ _ _ _ _ _ nf]
  show "r = Inr (nextId w)" and "p_state (promises w1 (nextId w)) = PENDING"
    and "\<exists>w2. run_loop (Suc (Suc n)) h env w1 = Some (None, w2) \<and>
            p_state (promises w2 (nextId w)) = REJECTED \<and>
            p_value (promises w2 (nextId w)) = p_value (promises w p) \<and>
            deferred w2 = []"
    by simp_all
qed

theorem missing_continuation_passes_outcome_through_witness:
  "p_state (promises chained_world 0) = REJECTED \<and> REJECTED \<noteq> PENDING \<and>
   p_state (promises chained_world 1) = PENDING \<and>
   p_state (promises (snd (run_task node_host no_user (Task 0 (then_handler Undefined REJECTED 1))
       chained_world)) 1) = REJECTED \<and>
   p_value (promises (snd (run_task node_host no_user (Task 0 (then_handler Undefined REJECTED 1))
       chained_world)) 1) = Str ''x'' \<and>
   process node_host = ProcessObject True \<and> deferred rejected_world = [] \<and>
   p_handlers (promises rejected_world 0) = [] \<and> 0 < nextId rejected_world \<and>
   p_state (promises rejected_world 0) = REJECTED \<and>
   fst (MyPromise_then node_host 0 (Fn (User 0)) Undefined rejected_world) = Inr 1 \<and>
   (\<exists>w2. run_loop (Suc (Suc 0)) node_host no_user
            (snd (MyPromise_then node_host 0 (Fn (User 0)) Undefined rejected_world)) = Some (None, w2) \<and>
         p_state (promises w2 1) = REJECTED \<and> p_value (promises w2 1) = Str ''x'' \<and>
         deferred w2 = [])"
proof -
  have h1: "p_state (promises chained_world 0) = REJECTED \<and> REJECTED \<noteq> PENDING \<and>
      (Undefined = Undefined \<or> Undefined = Null) \<and> p_state (promises chained_world 1) = PENDING \<and>
      run_task node_host no_user (Task 0 (then_handler Undefined REJECTED 1)) chained_world =
        (fst (run_task node_host no_user (Task 0 (then_handler Undefined REJECTED 1)) chained_world),
         snd (run_task node_host no_user (Task 0 (then_handler Undefined REJECTED 1)) chained_world))"
    using chained_world_facts by simp
  have h2: "process node_host = ProcessObject True \<and> deferred rejected_world = [] \<and>
      p_handlers (promises rejected_world 0) = [] \<and> 0 < nextId rejected_world \<and>
      p_state (promises rejected_world 0) = REJECTED \<and> (Undefined = Undefined \<or> Undefined = Null) \<and>
      MyPromise_then node_host 0 (Fn (User 0)) Undefined rejected_world =
        (fst (MyPromise_then node_host 0 (Fn (User 0)) Undefined rejected_world),
         snd (MyPromise_then node_host 0 (Fn (User 0)) Undefined rejected_world))"
    using rejected_world_0 by (simp add: node_host_def)
  note t1 = missing_continuation_passes_outcome_through [THEN conjunct1, rule_format, OF h1]
  note t2 = missing_continuation_passes_outcome_through [THEN conjunct2, rule_format, OF h2,
      where n = 0 and env = no_user]
  from h1 h2 t1 [THEN conjunct2] t2 chained_world_facts rejected_world_0 show ?thesis
    by (simp del: run_loop.simps)
qed

section \<open>A continuation that returns a thenable\<close>

text \<open>
  A function object that carries a callable \<^verbatim>\<open>then\<close> member is not a promise for \<^verbatim>\<open>isPromise\<close>,
  which asks for \<^verbatim>\<open>typeof obj === 'object'\<close>. When the continuation of
  \<^verbatim>\<open>MyPromise.resolve(1).then(f)\<close> returns such a function, whose \<^verbatim>\<open>then\<close> would call its first
  callback with 9, the promise \<^verbatim>\<open>then\<close> returned is fulfilled with the function itself; when
  it returns an object with the same \<^verbatim>\<open>then\<close>, with 9.
\<close>

theorem function_carrying_then_is_not_adopted:
  "is_function (FunctionWithThen (User 7) [CallOnFulfilled (Num 9)]) \<and>
   then_is_function (FunctionWithThen (User 7) [CallOnFulfilled (Num 9)]) \<and>
   \<not> isPromise (FunctionWithThen (User 7) [CallOnFulfilled (Num 9)]) \<and>
   chain_example node_host 5 2 =
     Some (None, FULFILLED, FunctionWithThen (User 7) [CallOnFulfilled (Num 9)], []) \<and>
   chain_example node_host 1 2 = Some (None, FULFILLED, Num 9, [])"
proof -
  have "chain_example node_host 5 2 =
     Some (None, FULFILLED, FunctionWithThen (User 7) [CallOnFulfilled (Num 9)], [])"
    by (simp add: chain_example_def adopting_env_def run_defs)
  moreover have "chain_example node_host 1 2 = Some (None, FULFILLED, Num 9, [])"
    by (simp add: chain_example_def adopting_env_def run_defs)
  ultimately show ?thesis by (simp add: isPromise_def)
qed

text \<open>
  The same chain with a continuation that returns a promise it creates, already rejected;
  a thenable that calls back from a timer; and an object whose \<^verbatim>\<open>then\<close> is a function of the
  caller.
\<close>

lemma chain_examples:
  "chain_example node_host 6 4 = Some (None, REJECTED, Str ''no'', []) \<and>
   chain_example node_host 2 3 = Some (None, REJECTED, Str ''late'', []) \<and>
   chain_example node_host 3 2 = Some (None, FULFILLED, Num 7, [])"
proof -
  have "chain_example node_host 6 4 = Some (None, REJECTED, Str ''no'', [])"
    by (simp add: chain_example_def adopting_env_def run_defs)
  moreover have "chain_example node_host 2 3 = Some (None, REJECTED, Str ''late'', [])"
    by (simp add: chain_example_def adopting_env_def run_defs)
  moreover have "chain_example node_host 3 2 = Some (None, FULFILLED, Num 7, [])"
    by (simp add: chain_example_def adopting_env_def run_defs)
  ultimately show ?thesis by (intro conjI)
qed

text \<open>
  C8, amended. Let the callback of a handler run whose continuation \<open>f\<close> is a function that
  returns a value \<^verbatim>\<open>isPromise\<close> accepts, that is an object (not a function) with a callable
  \<^verbatim>\<open>then\<close>; \<open>d\<close> is the promise \<^verbatim>\<open>then\<close> returned, \<open>w1\<close> the world the continuation left. On any
  host, whatever else is queued:
  \<^item> a promise \<open>q\<close> of this class that is pending gets two handlers more, which hold the
    capabilities of \<open>d\<close>; \<open>d\<close> is not touched and the host is handed nothing;
  \<^item> when the callback of such a handler runs, \<open>q\<close> being settled and \<open>d\<close> pending, \<open>d\<close> takes
    the state and the value of \<open>q\<close>;
  \<^item> a foreign thenable whose \<^verbatim>\<open>then\<close> first calls its first (second) callback with \<open>x\<close>
    leaves \<open>d\<close> fulfilled (rejected) with \<open>x\<close>;
  \<^item> a foreign thenable whose \<^verbatim>\<open>then\<close> hands the call of a callback with \<open>x\<close> to a timer
    leaves that call with the host, and the call, when it runs on a pending \<open>d\<close>, fulfils
    (rejects) \<open>d\<close> with \<open>x\<close>;
  \<^item> an object whose \<^verbatim>\<open>then\<close> member calls its first argument with \<open>x\<close> leaves \<open>d\<close> fulfilled
    with \<open>x\<close>;
  \<^item> a function that carries a \<^verbatim>\<open>then\<close> member is not adopted: \<open>d\<close> is fulfilled with the
    function.

  On a host with \<^verbatim>\<open>process.nextTick\<close>, a promise \<open>q\<close> of this class that is already settled
  has its two new handlers handed to the host at once. End to end on such a host, with
  nothing else to run: \<^verbatim>\<open>then\<close> on a settled promise, with a continuation that returns the
  promise \<open>q\<close>, returns a promise that ends in the state and with the value of \<open>q\<close>, after
  four callbacks when \<open>q\<close> was settled, and, when \<open>q\<close> was pending, after \<open>q\<close> is settled and
  two more callbacks have run.
\<close>

theorem returned_promise_is_adopted:
  "(p_state (promises w p) = st \<and> is_function f \<and>
    call_value h env f (p_value (promises w p)) w = (Inr (PromiseRef q), w1) \<and>
    p_state (promises w1 q) = PENDING \<and> q < nextId w1 \<and>
    run_task h env (Task p (then_handler f st d)) w = (e, w') \<longrightarrow>
      e = None \<and> p_state (promises w' q) = PENDING \<and>
      p_handlers (promises w' q) = p_handlers (promises w1 q) @
        [then_handler (Fn (Resolve d)) FULFILLED (nextId w1),
         then_handler (Fn (Reject d)) REJECTED (nextId w1)] \<and>
      (d < nextId w1 \<and> d \<noteq> q \<longrightarrow> promises w' d = promises w1 d) \<and>
      deferred w' = deferred w1) \<and>
   (p_state (promises w q) = s \<and> s \<noteq> PENDING \<and> p_state (promises w d) = PENDING \<and>
    run_task h env (Task q (then_handler (Fn (if s = FULFILLED then Resolve d else Reject d)) s d2)) w = (e, w') \<longrightarrow>
      p_state (promises w' d) = s \<and> p_value (promises w' d) = p_value (promises w q)) \<and>
   (process h = ProcessObject True \<and> p_state (promises w p) = st \<and> is_function f \<and>
    call_value h env f (p_value (promises w p)) w = (Inr (PromiseRef q), w1) \<and>
    p_state (promises w1 q) \<noteq> PENDING \<and> q < nextId w1 \<and>
    run_task h env (Task p (then_handler f st d)) w = (e, w') \<longrightarrow>
      e = None \<and>
      deferred w' = deferred w1 @ map (\<lambda>x. (NextTick, Task q x)) (p_handlers (promises w1 q) @
        [then_handler (Fn (Resolve d)) FULFILLED (nextId w1),
         then_handler (Fn (Reject d)) REJECTED (nextId w1)]) \<and>
      p_state (promises w' q) = p_state (promises w1 q) \<and>
      p_value (promises w' q) = p_value (promises w1 q) \<and>
      (d < nextId w1 \<and> d \<noteq> q \<longrightarrow> promises w' d = promises w1 d)) \<and>
   (p_state (promises w p) = st \<and> is_function f \<and>
    call_value h env f (p_value (promises w p)) w = (Inr (Thenable (c # rest)), w1) \<and>
    (c = CallOnFulfilled x \<and> s = FULFILLED \<or> c = CallOnRejected x \<and> s = REJECTED) \<and>
    p_state (promises w1 d) = PENDING \<and>
    run_task h env (Task p (then_handler f st d)) w = (e, w') \<longrightarrow>
      p_state (promises w' d) = s \<and> p_value (promises w' d) = x) \<and>
   (p_state (promises w p) = st \<and> is_function f \<and>
    call_value h env f (p_value (promises w p)) w = (Inr (Thenable [c]), w1) \<and>
    (c = LaterOnFulfilled x \<and> s = FULFILLED \<or> c = LaterOnRejected x \<and> s = REJECTED) \<longrightarrow>
      run_task h env (Task p (then_handler f st d)) w =
        (None, w1\<lparr>deferred := deferred w1 @
           [(SetTimeout, Call (if s = FULFILLED then Resolve d else Reject d) x)]\<rparr>)) \<and>
   (p_state (promises w d) = PENDING \<and> s \<noteq> PENDING \<and>
    run_task h env (Call (if s = FULFILLED then Resolve d else Reject d) x) w = (e, w') \<longrightarrow>
      p_state (promises w' d) = s \<and> p_value (promises w' d) = x) \<and>
   (p_state (promises w p) = st \<and> is_function f \<and>
    call_value h env f (p_value (promises w p)) w = (Inr (Obj kvs), w1) \<and>
    map_of kvs ''then'' = Some t \<and> is_function t \<and>
    call_value h env t (Fn (Resolve d)) w1 = apply_fn h env (Resolve d) x w1 \<and>
    p_state (promises w1 d) = PENDING \<and>
    run_task h env (Task p (then_handler f st d)) w = (e, w') \<longrightarrow>
      p_state (promises w' d) = FULFILLED \<and> p_value (promises w' d) = x) \<and>
   (p_state (promises w p) = st \<and> is_function f \<and>
    call_value h env f (p_value (promises w p)) w = (Inr (FunctionWithThen g script), w1) \<and>
    p_state (promises w1 d) = PENDING \<and>
    run_task h env (Task p (then_handler f st d)) w = (e, w') \<longrightarrow>
      p_state (promises w' d) = FULFILLED \<and> p_value (promises w' d) = FunctionWithThen g script) \<and>
   (process h = ProcessObject True \<and> deferred w = [] \<and>
    p_handlers (promises w p) = [] \<and> p_handlers (promises w q) = [] \<and>
    p < nextId w \<and> q < nextId w \<and>
    (p_state (promises w p) = FULFILLED \<and> onFulfilled = Fn (User k) \<or>
     p_state (promises w p) = REJECTED \<and> onRejected = Fn (User k)) \<and>
    (\<forall>wx. env k (p_value (promises w p)) wx = (Inr (PromiseRef q), wx)) \<and>
    MyPromise_then h p onFulfilled onRejected w = (r, w1) \<longrightarrow>
      r = Inr (nextId w) \<and>
      (p_state (promises w q) \<noteq> PENDING \<longrightarrow>
         (\<exists>w4. run_loop (Suc (Suc (Suc (Suc n)))) h env w1 = Some (None, w4) \<and>
               p_state (promises w4 (nextId w)) = p_state (promises w q) \<and>
               p_value (promises w4 (nextId w)) = p_value (promises w q) \<and>
               deferred w4 = [])) \<and>
      (p_state (promises w q) = PENDING \<and> s \<noteq> PENDING \<longrightarrow>
         (\<exists>w2 w3 w4. run_loop (Suc (Suc n)) h env w1 = Some (None, w2) \<and>
               p_state (promises w2 (nextId w)) = PENDING \<and>
               changeState h q s v w2 = (None, w3) \<and>
               run_loop (Suc (Suc m)) h env w3 = Some (None, w4) \<and>
               p_state (promises w4 (nextId w)) = s \<and>
               p_value (promises w4 (nextId w)) = v \<and>
               deferred w4 = [])))"
proof -
  have A: "p_state (promises w p) = st \<and> is_function f \<and>
    call_value h env f (p_value (promises w p)) w = (Inr (PromiseRef q), w1) \<and>
    p_state (promises w1 q) = PENDING \<and> q < nextId w1 \<and>
    run_task h env (Task p (then_handler f st d)) w = (e, w') \<longrightarrow>
      e = None \<and> p_state (promises w' q) = PENDING \<and>
      p_handlers (promises w' q) = p_handlers (promises w1 q) @
        [then_handler (Fn (Resolve d)) FULFILLED (nextId w1),
         then_handler (Fn (Reject d)) REJECTED (nextId w1)] \<and>
      (d < nextId w1 \<and> d \<noteq> q \<longrightarrow> promises w' d = promises w1 d) \<and>
      deferred w' = deferred w1"
  proof (intro impI, elim conjE)
    assume a: "p_state (promises w p) = st" "is_function f"
      "call_value h env f (p_value (promises w p)) w = (Inr (PromiseRef q), w1)"
      "p_state (promises w1 q) = PENDING" "q < nextId w1"
      "run_task h env (Task p (then_handler f st d)) w = (e, w')"
    have qn: "q \<noteq> nextId w1" using a(5) by simp
    note o = adopt_pending_inner [OF a(1,2,3,4) qn a(6)]
    from o [of q] o [of d] a(4) qn show "e = None \<and> p_state (promises w' q) = PENDING \<and>
      p_handlers (promises w' q) = p_handlers (promises w1 q) @
        [then_handler (Fn (Resolve d)) FULFILLED (nextId w1),
         then_handler (Fn (Reject d)) REJECTED (nextId w1)] \<and>
      (d < nextId w1 \<and> d \<noteq> q \<longrightarrow> promises w' d = promises w1 d) \<and>
      deferred w' = deferred w1"
      by simp
  qed
  have B: "p_state (promises w q) = s \<and> s \<noteq> PENDING \<and> p_state (promises w d) = PENDING \<and>
    run_task h env (Task q (then_handler (Fn (if s = FULFILLED then Resolve d else Reject d)) s d2)) w = (e, w') \<longrightarrow>
      p_state (promises w' d) = s \<and> p_value (promises w' d) = p_value (promises w q)"
    using adoption_handler_fires [of w q s d h env d2 e w'] by blast
  have C: "process h = ProcessObject True \<and> p_state (promises w p) = st \<and> is_function f \<and>
    call_value h env f (p_value (promises w p)) w = (Inr (PromiseRef q), w1) \<and>
    p_state (promises w1 q) \<noteq> PENDING \<and> q < nextId w1 \<and>
    run_task h env (Task p (then_handler f st d)) w = (e, w') \<longrightarrow>
      e = None \<and>
      deferred w' = deferred w1 @ map (\<lambda>x. (NextTick, Task q x)) (p_handlers (promises w1 q) @
        [then_handler (Fn (Resolve d)) FULFILLED (nextId w1),
         then_handler (Fn (Reject d)) REJECTED (nextId w1)]) \<and>
      p_state (promises w' q) = p_state (promises w1 q) \<and>
      p_value (promises w' q) = p_value (promises w1 q) \<and>
      (d < nextId w1 \<and> d \<noteq> q \<longrightarrow> promises w' d = promises w1 d)"
  proof (intro impI, elim conjE)
    assume a: "process h = ProcessObject True" "p_state (promises w p) = st" "is_function f"
      "call_value h env f (p_value (promises w p)) w = (Inr (PromiseRef q), w1)"
      "p_state (promises w1 q) \<noteq> PENDING" "q < nextId w1"
      "run_task h env (Task p (then_handler f st d)) w = (e, w')"
    have qn: "q \<noteq> nextId w1" using a(6) by simp
    note o = adopt_settled_inner_node [OF a(1,2,3,4,5) qn a(7)]
    from o [of q] o [of d] qn show "e = None \<and>
      deferred w' = deferred w1 @ map (\<lambda>x. (NextTick, Task q x)) (p_handlers (promises w1 q) @
        [then_handler (Fn (Resolve d)) FULFILLED (nextId w1),
         then_handler (Fn (Reject d)) REJECTED (nextId w1)]) \<and>
      p_state (promises w' q) = p_state (promises w1 q) \<and>
      p_value (promises w' q) = p_value (promises w1 q) \<and>
      (d < nextId w1 \<and> d \<noteq> q \<longrightarrow> promises w' d = promises w1 d)"
      by simp
  qed
  have D: "p_state (promises w p) = st \<and> is_function f \<and>
    call_value h env f (p_value (promises w p)) w = (Inr (Thenable (c # rest)), w1) \<and>
    (c = CallOnFulfilled x \<and> s = FULFILLED \<or> c = CallOnRejected x \<and> s = REJECTED) \<and>
    p_state (promises w1 d) = PENDING \<and>
    run_task h env (Task p (then_handler f st d)) w = (e, w') \<longrightarrow>
      p_state (promises w' d) = s \<and> p_value (promises w' d) = x"
    using thenable_is_adopted [of w p st f h env c rest w1 x s d e w'] by blast
  have E: "p_state (promises w p) = st \<and> is_function f \<and>
    call_value h env f (p_value (promises w p)) w = (Inr (Thenable [c]), w1) \<and>
    (c = LaterOnFulfilled x \<and> s = FULFILLED \<or> c = LaterOnRejected x \<and> s = REJECTED) \<longrightarrow>
      run_task h env (Task p (then_handler f st d)) w =
        (None, w1\<lparr>deferred := deferred w1 @
           [(SetTimeout, Call (if s = FULFILLED then Resolve d else Reject d) x)]\<rparr>)"
    using thenable_calls_back_later [of w p st f h env c w1 x s d] by blast
  have F: "p_state (promises w d) = PENDING \<and> s \<noteq> PENDING \<and>
    run_task h env (Call (if s = FULFILLED then Resolve d else Reject d) x) w = (e, w') \<longrightarrow>
      p_state (promises w' d) = s \<and> p_value (promises w' d) = x"
    using later_call_settles [of w d s h env x e w'] by blast
  have G: "p_state (promises w p) = st \<and> is_function f \<and>
    call_value h env f (p_value (promises w p)) w = (Inr (Obj kvs), w1) \<and>
    map_of kvs ''then'' = Some t \<and> is_function t \<and>
    call_value h env t (Fn (Resolve d)) w1 = apply_fn h env (Resolve d) x w1 \<and>
    p_state (promises w1 d) = PENDING \<and>
    run_task h env (Task p (then_handler f st d)) w = (e, w') \<longrightarrow>
      p_state (promises w' d) = FULFILLED \<and> p_value (promises w' d) = x"
    using object_with_then_is_adopted [of w p st f h env kvs w1 t d x e w'] by blast
  have H: "p_state (promises w p) = st \<and> is_function f \<and>
    call_value h env f (p_value (promises w p)) w = (Inr (FunctionWithThen g script), w1) \<and>
    p_state (promises w1 d) = PENDING \<and>
    run_task h env (Task p (then_handler f st d)) w = (e, w') \<longrightarrow>
      p_state (promises w' d) = FULFILLED \<and> p_value (promises w' d) = FunctionWithThen g script"
    using function_with_then_is_not_adopted [of w p st f h env g script w1 d e w'] by blast
  have I: "process h = ProcessObject True \<and> deferred w = [] \<and>
    p_handlers (promises w p) = [] \<and> p_handlers (promises w q) = [] \<and>
    p < nextId w \<and> q < nextId w \<and>
    (p_state (promises w p) = FULFILLED \<and> onFulfilled = Fn (User k) \<or>
     p_state (promises w p) = REJECTED \<and> onRejected = Fn (User k)) \<and>
    (\<forall>wx. env k (p_value (promises w p)) wx = (Inr (PromiseRef q), wx)) \<and>
    MyPromise_then h p onFulfilled onRejected w = (r, w1) \<longrightarrow>
      r = Inr (nextId w) \<and>
      (p_state (promises w q) \<noteq> PENDING \<longrightarrow>
         (\<exists>w4. run_loop (Suc (Suc (Suc (Suc n)))) h env w1 = Some (None, w4) \<and>
               p_state (promises w4 (nextId w)) = p_state (promises w q) \<and>
               p_value (promises w4 (nextId w)) = p_value (promises w q) \<and>
               deferred w4 = [])) \<and>
      (p_state (promises w q) = PENDING \<and> s \<noteq> PENDING \<longrightarrow>
         (\<exists>w2 w3 w4. run_loop (Suc (Suc n)) h env w1 = Some (None, w2) \<and>
               p_state (promises w2 (nextId w)) = PENDING \<and>
               changeState h q s v w2 = (None, w3) \<and>
               run_loop (Suc (Suc m)) h env w3 = Some (None, w4) \<and>
               p_state (promises w4 (nextId w)) = s \<and>
               p_value (promises w4 (nextId w)) = v \<and>
               deferred w4 = []))"
  proof (intro impI, elim conjE, intro conjI impI)
    assume node: "process h = ProcessObject True" and quiet: "deferred w = []"
      "p_handlers (promises w p) = []" "p_handlers (promises w q) = []"
      and alloc: "p < nextId w" "q < nextId w"
      and pst: "p_state (promises w p) = FULFILLED \<and> onFulfilled = Fn (User k) \<or>
        p_state (promises w p) = REJECTED \<and> onRejected = Fn (User k)"
      and ex0: "\<forall>wx. env k (p_value (promises w p)) wx = (Inr (PromiseRef q), wx)"
      and call: "MyPromise_then h p onFulfilled onRejected w = (r, w1)"
    have ex: "\<And>wx. env k (p_value (promises w p)) wx = (Inr (PromiseRef q), wx)" using ex0 by simp
    have stp: "p_state (promises w p) \<noteq> PENDING" using pst by auto
    have pd: "p \<noteq> nextId w" using alloc by simp
    from then_settled_node [OF node stp pd call, of p] show "r = Inr (nextId w)" by simp
    {
      assume qst: "p_state (promises w q) \<noteq> PENDING"
      from then_adopts_settled_node [where env = env, OF node quiet alloc qst pst ex call]
      show "\<exists>w4. run_loop (Suc (Suc (Suc (Suc n)))) h env w1 = Some (None, w4) \<and>
               p_state (promises w4 (nextId w)) = p_state (promises w q) \<and>
               p_value (promises w4 (nextId w)) = p_value (promises w q) \<and>
               deferred w4 = []"
        by simp
    }
    {
      assume "p_state (promises w q) = PENDING \<and> s \<noteq> PENDING"
      then have qst: "p_state (promises w q) = PENDING" and s: "s \<noteq> PENDING" by simp_all
      from then_adopts_pending_node [where env = env, OF node quiet alloc qst s pst ex call]
      show "\<exists>w2 w3 w4. run_loop (Suc (Suc n)) h env w1 = Some (None, w2) \<and>
               p_state (promises w2 (nextId w)) = PENDING \<and>
               changeState h q s v w2 = (None, w3) \<and>
               run_loop (Suc (Suc m)) h env w3 = Some (None, w4) \<and>
               p_state (promises w4 (nextId w)) = s \<and>
               p_value (promises w4 (nextId w)) = v \<and>
               deferred w4 = []"
        by simp
    }
  qed
  from A B C D E F G H I show ?thesis by (intro conjI)
qed

theorem returned_promise_is_adopted_witness:
  "p_state (promises three_world 0) = FULFILLED \<and> p_value (promises three_world 0) = Num 1 \<and>
   p_state (promises three_world 1) = PENDING \<and> p_state (promises three_world 2) = PENDING \<and>
   p_state (promises three_settled_world 1) = REJECTED \<and>
   p_value (promises three_settled_world 1) = Str ''x'' \<and>
   p_handlers (promises (snd (run_task node_host (adopting_env node_host)
       (Task 0 (then_handler (Fn (User 0)) FULFILLED 2)) three_world)) 1) =
     [then_handler (Fn (Resolve 2)) FULFILLED 3, then_handler (Fn (Reject 2)) REJECTED 3] \<and>
   p_state (promises (snd (run_task node_host (adopting_env node_host)
       (Task 1 (then_handler (Fn (Reject 2)) REJECTED 0)) three_settled_world)) 2) = REJECTED \<and>
   p_value (promises (snd (run_task node_host (adopting_env node_host)
       (Task 1 (then_handler (Fn (Reject 2)) REJECTED 0)) three_settled_world)) 2) = Str ''x'' \<and>
   deferred (snd (run_task node_host (adopting_env node_host)
       (Task 0 (then_handler (Fn (User 0)) FULFILLED 2)) three_settled_world)) =
     [(NextTick, Task 1 (then_handler (Fn (Resolve 2)) FULFILLED 3)),
      (NextTick, Task 1 (then_handler (Fn (Reject 2)) REJECTED 3))] \<and>
   p_state (promises (snd (run_task node_host (adopting_env node_host)
       (Task 0 (then_handler (Fn (User 1)) FULFILLED 2)) three_world)) 2) = FULFILLED \<and>
   p_value (promises (snd (run_task node_host (adopting_env node_host)
       (Task 0 (then_handler (Fn (User 1)) FULFILLED 2)) three_world)) 2) = Num 9 \<and>
   run_task node_host (adopting_env node_host) (Task 0 (then_handler (Fn (User 2)) FULFILLED 2)) three_world =
     (None, three_world\<lparr>deferred := [(SetTimeout, Call (Reject 2) (Str ''late''))]\<rparr>) \<and>
   p_state (promises (snd (run_task node_host (adopting_env node_host)
       (Call (Reject 2) (Str ''late'')) three_world)) 2) = REJECTED \<and>
   p_value (promises (snd (run_task node_host (adopting_env node_host)
       (Call (Reject 2) (Str ''late'')) three_world)) 2) = Str ''late'' \<and>
   p_state (promises (snd (run_task node_host (adopting_env node_host)
       (Task 0 (then_handler (Fn (User 3)) FULFILLED 2)) three_world)) 2) = FULFILLED \<and>
   p_value (promises (snd (run_task node_host (adopting_env node_host)
       (Task 0 (then_handler (Fn (User 3)) FULFILLED 2)) three_world)) 2) = Num 7 \<and>
   p_state (promises (snd (run_task node_host (adopting_env node_host)
       (Task 0 (then_handler (Fn (User 5)) FULFILLED 2)) three_world)) 2) = FULFILLED \<and>
   p_value (promises (snd (run_task node_host (adopting_env node_host)
       (Task 0 (then_handler (Fn (User 5)) FULFILLED 2)) three_world)) 2) =
     FunctionWithThen (User 7) [CallOnFulfilled (Num 9)] \<and>
   fst (MyPromise_then node_host 0 (Fn (User 0)) Undefined two_settled_world) = Inr 2 \<and>
   (\<exists>w4. run_loop (Suc (Suc (Suc (Suc 0)))) node_host (adopting_env node_host)
            (snd (MyPromise_then node_host 0 (Fn (User 0)) Undefined two_settled_world)) = Some (None, w4) \<and>
         p_state (promises w4 2) = REJECTED \<and> p_value (promises w4 2) = Str ''x'' \<and> deferred w4 = []) \<and>
   fst (MyPromise_then node_host 0 (Fn (User 0)) Undefined settled_and_pending_world) = Inr 2 \<and>
   (\<exists>w2 w3 w4. run_loop (Suc (Suc 0)) node_host (adopting_env node_host)
            (snd (MyPromise_then node_host 0 (Fn (User 0)) Undefined settled_and_pending_world)) = Some (None, w2) \<and>
         p_state (promises w2 2) = PENDING \<and>
         changeState node_host 1 FULFILLED (Num 7) w2 = (None, w3) \<and>
         run_loop (Suc (Suc 0)) node_host (adopting_env node_host) w3 = Some (None, w4) \<and>
         p_state (promises w4 2) = FULFILLED \<and> p_value (promises w4 2) = Num 7 \<and> deferred w4 = [])"
proof -
  let ?E = "adopting_env node_host"
  let ?T = "\<lambda>k. Task 0 (then_handler (Fn (User k)) FULFILLED 2)"
  note tw = three_world_facts
  note ts = three_settled_world_facts
  have node: "process node_host = ProcessObject True" by (simp add: node_host_def)
  have cv: "call_value node_host ?E (Fn (User 0)) (Num 1) w = (Inr (PromiseRef 1), w)"
    "call_value node_host ?E (Fn (User 1)) (Num 1) w = (Inr (Thenable [CallOnFulfilled (Num 9)]), w)"
    "call_value node_host ?E (Fn (User 2)) (Num 1) w = (Inr (Thenable [LaterOnRejected (Str ''late'')]), w)"
    "call_value node_host ?E (Fn (User 3)) (Num 1) w = (Inr (Obj [(''then'', Fn (User 4))]), w)"
    "call_value node_host ?E (Fn (User 5)) (Num 1) w = (Inr (FunctionWithThen (User 7) [CallOnFulfilled (Num 9)]), w)"
    for w
    by (simp_all add: call_value_def apply_fn_def adopting_env_def)
  have hA: "p_state (promises three_world 0) = FULFILLED \<and> is_function (Fn (User 0)) \<and>
    call_value node_host ?E (Fn (User 0)) (p_value (promises three_world 0)) three_world =
      (Inr (PromiseRef 1), three_world) \<and>
    p_state (promises three_world 1) = PENDING \<and> 1 < nextId three_world \<and>
    run_task node_host ?E (?T 0) three_world =
      (fst (run_task node_host ?E (?T 0) three_world), snd (run_task node_host ?E (?T 0) three_world))"
    using tw cv by simp
  have hB: "p_state (promises three_settled_world 1) = REJECTED \<and> REJECTED \<noteq> PENDING \<and>
    p_state (promises three_settled_world 2) = PENDING \<and>
    run_task node_host ?E (Task 1 (then_handler (Fn (if REJECTED = FULFILLED then Resolve 2 else Reject 2)) REJECTED 0))
        three_settled_world =
      (fst (run_task node_host ?E (Task 1 (then_handler (Fn (Reject 2)) REJECTED 0)) three_settled_world),
       snd (run_task node_host ?E (Task 1 (then_handler (Fn (Reject 2)) REJECTED 0)) three_settled_world))"
    using ts by simp
  have hC: "process node_host = ProcessObject True \<and>
    p_state (promises three_settled_world 0) = FULFILLED \<and> is_function (Fn (User 0)) \<and>
    call_value node_host ?E (Fn (User 0)) (p_value (promises three_settled_world 0)) three_settled_world =
      (Inr (PromiseRef 1), three_settled_world) \<and>
    p_state (promises three_settled_world 1) \<noteq> PENDING \<and> 1 < nextId three_settled_world \<and>
    run_task node_host ?E (?T 0) three_settled_world =
      (fst (run_task node_host ?E (?T 0) three_settled_world),
       snd (run_task node_host ?E (?T 0) three_settled_world))"
    using ts cv node by simp
  have hD: "p_state (promises three_world 0) = FULFILLED \<and> is_function (Fn (User 1)) \<and>
    call_value node_host ?E (Fn (User 1)) (p_value (promises three_world 0)) three_world =
      (Inr (Thenable (CallOnFulfilled (Num 9) # [])), three_world) \<and>
    (CallOnFulfilled (Num 9) = CallOnFulfilled (Num 9) \<and> FULFILLED = FULFILLED \<or>
     CallOnFulfilled (Num 9) = CallOnRejected (Num 9) \<and> FULFILLED = REJECTED) \<and>
    p_state (promises three_world 2) = PENDING \<and>
    run_task node_host ?E (?T 1) three_world =
      (fst (run_task node_host ?E (?T 1) three_world), snd (run_task node_host ?E (?T 1) three_world))"
    using tw cv by simp
  have hE: "p_state (promises three_world 0) = FULFILLED \<and> is_function (Fn (User 2)) \<and>
    call_value node_host ?E (Fn (User 2)) (p_value (promises three_world 0)) three_world =
      (Inr (Thenable [LaterOnRejected (Str ''late'')]), three_world) \<and>
    (LaterOnRejected (Str ''late'') = LaterOnFulfilled (Str ''late'') \<and> REJECTED = FULFILLED \<or>
     LaterOnRejected (Str ''late'') = LaterOnRejected (Str ''late'') \<and> REJECTED = REJECTED)"
    using tw cv by simp
  have hF: "p_state (promises three_world 2) = PENDING \<and> REJECTED \<noteq> PENDING \<and>
    run_task node_host ?E (Call (if REJECTED = FULFILLED then Resolve 2 else Reject 2) (Str ''late'')) three_world =
      (fst (run_task node_host ?E (Call (Reject 2) (Str ''late'')) three_world),
       snd (run_task node_host ?E (Call (Reject 2) (Str ''late'')) three_world))"
    using tw by simp
  have hG: "p_state (promises three_world 0) = FULFILLED \<and> is_function (Fn (User 3)) \<and>
    call_value node_host ?E (Fn (User 3)) (p_value (promises three_world 0)) three_world =
      (Inr (Obj [(''then'', Fn (User 4))]), three_world) \<and>
    map_of [(''then'', Fn (User 4))] ''then'' = Some (Fn (User 4)) \<and> is_function (Fn (User 4)) \<and>
    call_value node_host ?E (Fn (User 4)) (Fn (Resolve 2)) three_world =
      apply_fn node_host ?E (Resolve 2) (Num 7) three_world \<and>
    p_state (promises three_world 2) = PENDING \<and>
    run_task node_host ?E (?T 3) three_world =
      (fst (run_task node_host ?E (?T 3) three_world), snd (run_task node_host ?E (?T 3) three_world))"
    using tw cv by (simp add: call_value_def apply_fn_def adopting_env_def)
  have hH: "p_state (promises three_world 0) = FULFILLED \<and> is_function (Fn (User 5)) \<and>
    call_value node_host ?E (Fn (User 5)) (p_value (promises three_world 0)) three_world =
      (Inr (FunctionWithThen (User 7) [CallOnFulfilled (Num 9)]), three_world) \<and>
    p_state (promises three_world 2) = PENDING \<and>
    run_task node_host ?E (?T 5) three_world =
      (fst (run_task node_host ?E (?T 5) three_world), snd (run_task node_host ?E (?T 5) three_world))"
    using tw cv by simp
  have hI1: "process node_host = ProcessObject True \<and> deferred two_settled_world = [] \<and>
    p_handlers (promises two_settled_world 0) = [] \<and> p_handlers (promises two_settled_world 1) = [] \<and>
    0 < nextId two_settled_world \<and> 1 < nextId two_settled_world \<and>
    (p_state (promises two_settled_world 0) = FULFILLED \<and> Fn (User 0) = Fn (User 0) \<or>
     p_state (promises two_settled_world 0) = REJECTED \<and> Undefined = Fn (User 0)) \<and>
    (\<forall>wx. ?E 0 (p_value (promises two_settled_world 0)) wx = (Inr (PromiseRef 1), wx)) \<and>
    MyPromise_then node_host 0 (Fn (User 0)) Undefined two_settled_world =
      (fst (MyPromise_then node_host 0 (Fn (User 0)) Undefined two_settled_world),
       snd (MyPromise_then node_host 0 (Fn (User 0)) Undefined two_settled_world))"
    using two_settled_world_facts node by (simp add: adopting_env_def)
  have hI2: "process node_host = ProcessObject True \<and> deferred settled_and_pending_world = [] \<and>
    p_handlers (promises settled_and_pending_world 0) = [] \<and>
    p_handlers (promises settled_and_pending_world 1) = [] \<and>
    0 < nextId settled_and_pending_world \<and> 1 < nextId settled_and_pending_world \<and>
    (p_state (promises settled_and_pending_world 0) = FULFILLED \<and> Fn (User 0) = Fn (User 0) \<or>
     p_state (promises settled_and_pending_world 0) = REJECTED \<and> Undefined = Fn (User 0)) \<and>
    (\<forall>wx. ?E 0 (p_value (promises settled_and_pending_world 0)) wx = (Inr (PromiseRef 1), wx)) \<and>
    MyPromise_then node_host 0 (Fn (User 0)) Undefined settled_and_pending_world =
      (fst (MyPromise_then node_host 0 (Fn (User 0)) Undefined settled_and_pending_world),
       snd (MyPromise_then node_host 0 (Fn (User 0)) Undefined settled_and_pending_world))"
    using settled_and_pending_world_facts node by (simp add: adopting_env_def)
  have s1: "p_state (promises two_settled_world 1) \<noteq> PENDING" using two_settled_world_facts by simp
  have s2: "p_state (promises settled_and_pending_world 1) = PENDING \<and> FULFILLED \<noteq> PENDING"
    using settled_and_pending_world_facts by simp
  note inst = returned_promise_is_adopted [where env = ?E and h = node_host]
  note tA = inst [THEN conjunct1, rule_format, OF hA]
  note tB = inst [THEN conjunct2, THEN conjunct1, rule_format, OF hB]
  note tC = inst [THEN conjunct2, THEN conjunct2, THEN conjunct1, rule_format, OF hC]
  note tD = inst [THEN conjunct2, THEN conjunct2, THEN conjunct2, THEN conjunct1, rule_format, OF hD]
  note tE = inst [THEN conjunct2, THEN conjunct2, THEN conjunct2, THEN conjunct2, THEN conjunct1,
      rule_format, OF hE, where d = 2]
  note tF = inst [THEN conjunct2, THEN conjunct2, THEN conjunct2, THEN conjunct2, THEN conjunct2,
      THEN conjunct1, rule_format, OF hF]
  note tG = inst [THEN conjunct2, THEN conjunct2, THEN conjunct2, THEN conjunct2, THEN conjunct2,
      THEN conjunct2, THEN conjunct1, rule_format, OF hG]
  note tH = inst [THEN conjunct2, THEN conjunct2, THEN conjunct2, THEN conjunct2, THEN conjunct2,
      THEN conjunct2, THEN conjunct2, THEN conjunct1, rule_format, OF hH]
  note tI1 = inst [THEN conjunct2, THEN conjunct2, THEN conjunct2, THEN conjunct2, THEN conjunct2,
      THEN conjunct2, THEN conjunct2, THEN conjunct2, rule_format, OF hI1]
  note tI2 = inst [THEN conjunct2, THEN conjunct2, THEN conjunct2, THEN conjunct2, THEN conjunct2,
      THEN conjunct2, THEN conjunct2, THEN conjunct2, rule_format, OF hI2]
  note c1 = tI1 [THEN conjunct1] tI1 [THEN conjunct2, THEN conjunct1, rule_format, OF s1, where n = 0]
  note c2 = tI2 [THEN conjunct1]
    tI2 [THEN conjunct2, THEN conjunct2, rule_format, OF s2, where n = 0 and m = 0 and v = "Num 7"]
  from tA tB tC tD tE tF tG tH c1 c2 tw ts two_settled_world_facts settled_and_pending_world_facts
  show ?thesis
    by (simp del: run_loop.simps)
qed

section \<open>An error thrown by the executor\<close>

text \<open>
  The executor \<^verbatim>\<open>(resolve) => { resolve(1); throw 'E' }\<close> throws, and the promise constructed
  with it is fulfilled with 1: the error does not become its rejection reason.
\<close>

theorem executor_error_after_settlement_is_dropped:
  "fst (resolve_then_throw node_host 0 (init_promise empty_world)) = Some (Str ''E'') \<and>
   fst (new_MyPromise node_host (resolve_then_throw node_host) empty_world) = Inr 0 \<and>
   p_state (promises (snd (new_MyPromise node_host (resolve_then_throw node_host) empty_world)) 0) = FULFILLED \<and>
   p_value (promises (snd (new_MyPromise node_host (resolve_then_throw node_host) empty_world)) 0) = Num 1"
  by (simp add: resolve_then_throw_def eval_defs)

text \<open>
  C9, amended. When the executor throws, the constructor passes the error to \<^verbatim>\<open>_reject\<close> in
  the world the executor left. If the promise is still pending there, it ends rejected
  with the error; if the executor had settled it, the constructor returns it as the
  executor left it. The error is captured: the constructor returns the promise, and throws
  nothing, when the promise has no handler yet (the executor is not given the promise, so
  it cannot have registered one), and on a host with \<^verbatim>\<open>process.nextTick\<close> in any case.
\<close>

theorem executor_error_is_passed_to_reject:
  assumes "exec (nextId w) (init_promise w) = (Some error, w1)"
    and "new_MyPromise h exec w = (r, w2)"
  shows "w2 = snd (p_reject h (nextId w) error w1) \<and>
         (p_state (promises w1 (nextId w)) = PENDING \<longrightarrow>
            p_state (promises w2 (nextId w)) = REJECTED \<and> p_value (promises w2 (nextId w)) = error) \<and>
         (p_state (promises w1 (nextId w)) \<noteq> PENDING \<longrightarrow> r = Inr (nextId w) \<and> w2 = w1) \<and>
         (process h = ProcessObject True \<or> p_handlers (promises w1 (nextId w)) = [] \<longrightarrow>
            r = Inr (nextId w))"
proof -
  obtain e w3 where rj: "p_reject h (nextId w) error w1 = (e, w3)"
    by (cases "p_reject h (nextId w) error w1")
  with assms have w2: "w2 = w3" and r: "r = (case e of None \<Rightarrow> Inr (nextId w) | Some x \<Rightarrow> Inl x)"
    by (auto simp: new_MyPromise_def Let_def split: option.splits)
  from rj have cs: "changeState h (nextId w) REJECTED error w1 = (e, w3)"
    by (simp add: p_reject_def)
  have settled: "p_state (promises w1 (nextId w)) \<noteq> PENDING \<Longrightarrow> e = None \<and> w3 = w1"
    using changeState_settled [of w1 "nextId w" h REJECTED error] cs by simp
  have captured: "e = None"
    if "process h = ProcessObject True \<or> p_handlers (promises w1 (nextId w)) = []"
  proof (cases "p_state (promises w1 (nextId w)) = PENDING")
    case False
    with settled show ?thesis by simp
  next
    case True
    from that show ?thesis
    proof
      assume "process h = ProcessObject True"
      from changeState_node [OF this True _ cs, of "nextId w"] show ?thesis by simp
    next
      assume "p_handlers (promises w1 (nextId w)) = []"
      from changeState_no_handlers [OF True this, of h REJECTED error] cs show ?thesis by simp
    qed
  qed
  show ?thesis
    using w2 r rj changeState_pending [OF _ cs] settled captured
    by auto
qed

theorem executor_error_is_passed_to_reject_witness:
  "throw_only (nextId empty_world) (init_promise empty_world) = (Some (Str ''E''), init_promise empty_world) \<and>
   p_state (promises (init_promise empty_world) (nextId empty_world)) = PENDING \<and>
   p_state (promises (snd (new_MyPromise node_host throw_only empty_world)) (nextId empty_world)) = REJECTED \<and>
   p_value (promises (snd (new_MyPromise node_host throw_only empty_world)) (nextId empty_world)) = Str ''E'' \<and>
   p_handlers (promises (init_promise empty_world) (nextId empty_world)) = [] \<and>
   fst (new_MyPromise node_host throw_only empty_world) = Inr (nextId empty_world) \<and>
   fst (resolve_then_throw node_host (nextId empty_world) (init_promise empty_world)) = Some (Str ''E'') \<and>
   p_state (promises (snd (resolve_then_throw node_host (nextId empty_world) (init_promise empty_world)))
      (nextId empty_world)) \<noteq> PENDING \<and>
   new_MyPromise node_host (resolve_then_throw node_host) empty_world =
     (Inr (nextId empty_world), snd (resolve_then_throw node_host (nextId empty_world) (init_promise empty_world)))"
proof -
  have a: "throw_only (nextId empty_world) (init_promise empty_world) = (Some (Str ''E''), init_promise empty_world)"
    by (simp add: throw_only_def)
  have b: "p_state (promises (init_promise empty_world) (nextId empty_world)) = PENDING"
    by simp
  have c: "resolve_then_throw node_host (nextId empty_world) (init_promise empty_world) =
      (Some (Str ''E''), snd (resolve_then_throw node_host (nextId empty_world) (init_promise empty_world)))"
    by (simp add: resolve_then_throw_def p_resolve_def changeState_def runHandlers_def
          runHandlers_loop.simps)
  have d: "p_state (promises (snd (resolve_then_throw node_host (nextId empty_world) (init_promise empty_world)))
      (nextId empty_world)) \<noteq> PENDING"
    by (simp add: resolve_then_throw_def p_resolve_def changeState_def runHandlers_def
          runHandlers_loop.simps)
  have e1: "new_MyPromise node_host throw_only empty_world =
      (fst (new_MyPromise node_host throw_only empty_world),
       snd (new_MyPromise node_host throw_only empty_world))"
    by simp
  have e2: "new_MyPromise node_host (resolve_then_throw node_host) empty_world =
      (fst (new_MyPromise node_host (resolve_then_throw node_host) empty_world),
       snd (new_MyPromise node_host (resolve_then_throw node_host) empty_world))"
    by simp
  note i1 = executor_error_is_passed_to_reject [where exec = throw_only and w = empty_world
         and error = "Str ''E''" and ?w1.0 = "init_promise empty_world" and h = node_host
         and r = "fst (new_MyPromise node_host throw_only empty_world)"
         and ?w2.0 = "snd (new_MyPromise node_host throw_only empty_world)", OF a e1]
  note i2 = executor_error_is_passed_to_reject [where exec = "resolve_then_throw node_host"
         and w = empty_world and error = "Str ''E''"
         and ?w1.0 = "snd (resolve_then_throw node_host (nextId empty_world) (init_promise empty_world))"
         and h = node_host
         and r = "fst (new_MyPromise node_host (resolve_then_throw node_host) empty_world)"
         and ?w2.0 = "snd (new_MyPromise node_host (resolve_then_throw node_host) empty_world)", OF c e2]
  from i1 b have s1: "p_state (promises (snd (new_MyPromise node_host throw_only empty_world)) (nextId empty_world)) = REJECTED"
    and s2: "p_value (promises (snd (new_MyPromise node_host throw_only empty_world)) (nextId empty_world)) = Str ''E''"
    by blast+
  have b2: "p_handlers (promises (init_promise empty_world) (nextId empty_world)) = []"
    by simp
  from i1 b2 have s3: "fst (new_MyPromise node_host throw_only empty_world) = Inr (nextId empty_world)"
    by blast
  from i2 d have f: "new_MyPromise node_host (resolve_then_throw node_host) empty_world =
     (Inr (nextId empty_world), snd (resolve_then_throw node_host (nextId empty_world) (init_promise empty_world)))"
    by (subst e2) blast
  from c have c1: "fst (resolve_then_throw node_host (nextId empty_world) (init_promise empty_world)) = Some (Str ''E'')"
    by (simp add: prod_eq_iff)
  from a b s1 s2 b2 s3 c1 d f show ?thesis
    by - (intro conjI; assumption)
qed

section \<open>A continuation that is not a function\<close>

text \<open>
  C10. A handler whose continuation is any value that is not a function runs exactly as
  the handler with no continuation does. On a host with \<^verbatim>\<open>process.nextTick\<close> and nothing
  else to run, \<^verbatim>\<open>then\<close> on a settled promise, with a non-function in the position of the
  state the promise is in, returns a pending promise that ends in the state and with
  the value of the source once the host has run the two callbacks.
\<close>

theorem non_function_continuation_is_missing_continuation:
  "(\<not> is_function x \<longrightarrow>
      run_task h env (Task p \<lparr>executor = x, state = s, resolve = a, reject = b\<rparr>) w =
      run_task h env (Task p \<lparr>executor = Undefined, state = s, resolve = a, reject = b\<rparr>) w) \<and>
   (process h = ProcessObject True \<and> deferred w = [] \<and> p_handlers (promises w p) = [] \<and>
    p < nextId w \<and>
    (p_state (promises w p) = FULFILLED \<and> \<not> is_function onFulfilled \<or>
     p_state (promises w p) = REJECTED \<and> \<not> is_function onRejected) \<and>
    MyPromise_then h p onFulfilled onRejected w = (r, w1) \<longrightarrow>
      r = Inr (nextId w) \<and> p_state (promises w1 (nextId w)) = PENDING \<and>
      (\<exists>w2. run_loop (Suc (Suc n)) h env w1 = Some (None, w2) \<and>
            p_state (promises w2 (nextId w)) = p_state (promises w p) \<and>
            p_value (promises w2 (nextId w)) = p_value (promises w p) \<and>
            deferred w2 = []))"
proof (intro conjI impI)
  assume "\<not> is_function x"
  then show "run_task h env (Task p \<lparr>executor = x, state = s, resolve = a, reject = b\<rparr>) w =
      run_task h env (Task p \<lparr>executor = Undefined, state = s, resolve = a, reject = b\<rparr>) w"
    by (simp add: run_task_def)
next
  assume a: "process h = ProcessObject True \<and> deferred w = [] \<and> p_handlers (promises w p) = [] \<and>
    p < nextId w \<and>
    (p_state (promises w p) = FULFILLED \<and> \<not> is_function onFulfilled \<or>
     p_state (promises w p) = REJECTED \<and> \<not> is_function onRejected) \<and>
    MyPromise_then h p onFulfilled onRejected w = (r, w1)"
  then have nf: "if p_state (promises w p) = FULFILLED then \<not> is_function onFulfilled
                 else \<not> is_function onRejected"
    and st: "p_state (promises w p) \<noteq> PENDING"
    by auto
  from a then_passthrough_node [of h w p "p_state (promises w p)" onFulfilled onRejected r w1 n env,
      OF _ _ _ _ _ st nf]
  show "r = Inr (nextId w)" and "p_state (promises w1 (nextId w)) = PENDING"
    and "\<exists>w2. run_loop (Suc (Suc n)) h env w1 = Some (None, w2) \<and>
            p_state (promises w2 (nextId w)) = p_state (promises w p) \<and>
            p_value (promises w2 (nextId w)) = p_value (promises w p) \<and>
            deferred w2 = []"
    by simp_all
qed

theorem non_function_continuation_is_missing_continuation_witness:
  "\<not> is_function (Num 5) \<and>
   run_task node_host no_user (Task 0 \<lparr>executor = Num 5, state = FULFILLED, resolve = Resolve 1, reject = Reject 1\<rparr>) fulfilled_world =
   run_task node_host no_user (Task 0 \<lparr>executor = Undefined, state = FULFILLED, resolve = Resolve 1, reject = Reject 1\<rparr>) fulfilled_world \<and>
   process node_host = ProcessObject True \<and> deferred fulfilled_world = [] \<and>
   p_handlers (promises fulfilled_world 0) = [] \<and> 0 < nextId fulfilled_world \<and>
   p_state (promises fulfilled_world 0) = FULFILLED \<and>
   fst (MyPromise_then node_host 0 (Num 5) (Str ''no'') fulfilled_world) = Inr 1 \<and>
   (\<exists>w2. run_loop (Suc (Suc 0)) node_host no_user
            (snd (MyPromise_then node_host 0 (Num 5) (Str ''no'') fulfilled_world)) = Some (None, w2) \<and>
         p_state (promises w2 1) = FULFILLED \<and> p_value (promises w2 1) = Num 1 \<and> deferred w2 = []) \<and>
   deferred rejected_world = [] \<and>
   p_handlers (promises rejected_world 0) = [] \<and> 0 < nextId rejected_world \<and>
   p_state (promises rejected_world 0) = REJECTED \<and> \<not> is_function (Obj []) \<and>
   fst (MyPromise_then node_host 0 (Fn (User 0)) (Obj []) rejected_world) = Inr 1 \<and>
   (\<exists>w2. run_loop (Suc (Suc 0)) node_host no_user
            (snd (MyPromise_then node_host 0 (Fn (User 0)) (Obj []) rejected_world)) = Some (None, w2) \<and>
         p_state (promises w2 1) = REJECTED \<and> p_value (promises w2 1) = Str ''x'' \<and> deferred w2 = [])"
proof -
  have h0: "\<not> is_function (Num 5)" by simp
  have h1: "process node_host = ProcessObject True \<and> deferred fulfilled_world = [] \<and>
      p_handlers (promises fulfilled_world 0) = [] \<and> 0 < nextId fulfilled_world \<and>
      (p_state (promises fulfilled_world 0) = FULFILLED \<and> \<not> is_function (Num 5) \<or>
       p_state (promises fulfilled_world 0) = REJECTED \<and> \<not> is_function (Str ''no'')) \<and>
      MyPromise_then node_host 0 (Num 5) (Str ''no'') fulfilled_world =
        (fst (MyPromise_then node_host 0 (Num 5) (Str ''no'') fulfilled_world),
         snd (MyPromise_then node_host 0 (Num 5) (Str ''no'') fulfilled_world))"
    using fulfilled_world_0 fulfilled_world_more by (simp add: node_host_def)
  have h2: "process node_host = ProcessObject True \<and> deferred rejected_world = [] \<and>
      p_handlers (promises rejected_world 0) = [] \<and> 0 < nextId rejected_world \<and>
      (p_state (promises rejected_world 0) = FULFILLED \<and> \<not> is_function (Fn (User 0)) \<or>
       p_state (promises rejected_world 0) = REJECTED \<and> \<not> is_function (Obj [])) \<and>
      MyPromise_then node_host 0 (Fn (User 0)) (Obj []) rejected_world =
        (fst (MyPromise_then node_host 0 (Fn (User 0)) (Obj []) rejected_world),
         snd (MyPromise_then node_host 0 (Fn (User 0)) (Obj []) rejected_world))"
    using rejected_world_0 by (simp add: node_host_def)
  note t0 = non_function_continuation_is_missing_continuation [THEN conjunct1, rule_format, OF h0,
      of node_host no_user 0 FULFILLED "Resolve 1" "Reject 1" fulfilled_world]
  note t1 = non_function_continuation_is_missing_continuation [THEN conjunct2, rule_format, OF h1,
      where n = 0 and env = no_user]
  note t2 = non_function_continuation_is_missing_continuation [THEN conjunct2, rule_format, OF h2,
      where n = 0 and env = no_user]
  from h0 h1 h2 t0 t1 t2 fulfilled_world_0 fulfilled_world_more rejected_world_0 show ?thesis
    by (simp del: run_loop.simps)
qed

end
